theory Spec2Isabelle
  imports Main "HOL-Library.Sublist"
begin

section \<open>Python values\<close>

text \<open>
  A Python \<^verbatim>\<open>str\<close> is a sequence of Unicode code points; a code point is a natural
  number.  ASCII literals of the source are written with \<open>ustr\<close>.
\<close>

type_synonym pystr = "nat list"

definition ustr :: "string \<Rightarrow> pystr" where
  "ustr s = map of_char s"

text \<open>The exception classes the source names or catches.\<close>

datatype exn = PlaywrightTimeoutError | PlaywrightError | RuntimeError | ValueError

section \<open>Chunk scheduler and result aggregator\<close>

text \<open>
  \<^verbatim>\<open>range(start, stop, step)\<close> for a positive step; \<open>chunker\<close> below deals with the
  other steps before it calls this.
\<close>

function py_range :: "nat \<Rightarrow> nat \<Rightarrow> nat \<Rightarrow> nat list" where
  "py_range i stop step =
     (if 0 < step \<and> i < stop then i # py_range (i + step) stop step else [])"
  by pat_completeness auto
termination
  by (relation "measure (\<lambda>(i, stop, step). stop - i)") auto

declare py_range.simps [simp del]

text \<open>\<^verbatim>\<open>df.iloc[i:j]\<close> on a frame stored as the list of its rows, for \<open>0 \<le> i \<le> j\<close>.\<close>

definition iloc :: "'row list \<Rightarrow> nat \<Rightarrow> nat \<Rightarrow> 'row list" where
  "iloc df i j = take (j - i) (drop i df)"

text \<open>
  \<^verbatim>\<open>chunker(df, size)\<close>, line 276.  \<^verbatim>\<open>range\<close> raises \<^verbatim>\<open>ValueError\<close> on a zero step
  and is empty for a negative step and a non-negative stop.
\<close>

definition chunker :: "'row list \<Rightarrow> int \<Rightarrow> exn + 'row list list" where
  "chunker df sz =
     (if sz = 0 then Inl ValueError
      else if sz < 0 then Inr []
      else Inr (map (\<lambda>i. iloc df i (i + nat sz)) (py_range 0 (length df) (nat sz))))"

text \<open>
  \<^verbatim>\<open>asyncio.gather(*tasks)\<close> as line 271 calls it, without \<^verbatim>\<open>return_exceptions\<close>.  A task
  returns a value or raises.  The tasks finish in some order \<open>order\<close> (task positions, in
  completion order).  The value of task \<open>i\<close> is stored in slot \<open>i\<close>; the first task to
  raise makes the call raise that exception at once.  The call returns the slots once
  every task has finished, and never returns (\<open>None\<close>) when a task never finishes.
\<close>

fun gather_slots ::
  "(nat \<Rightarrow> exn + 'r) list \<Rightarrow> nat list \<Rightarrow> 'r option list \<Rightarrow> (exn + 'r list) option" where
  "gather_slots tasks [] slots =
     (case those slots of None \<Rightarrow> None | Some results \<Rightarrow> Some (Inr results))"
| "gather_slots tasks (i # order) slots =
     (if i < length tasks
      then (case (tasks ! i) i of
              Inl e \<Rightarrow> Some (Inl e)
            | Inr v \<Rightarrow> gather_slots tasks order (slots[i := Some v]))
      else gather_slots tasks order slots)"

definition gather :: "(nat \<Rightarrow> exn + 'r) list \<Rightarrow> nat list \<Rightarrow> (exn + 'r list) option" where
  "gather tasks order = gather_slots tasks order (replicate (length tasks) None)"

text \<open>
  \<^verbatim>\<open>process_chunk\<close>, line 268.  \<open>link\<close> reads the column \<^verbatim>\<open>Details Page Link\<close> of a
  row; \<open>scrape i url\<close> is how the worker started at position \<open>i\<close> ends: with the result
  it returns, or with the exception that leaves it.  The three result columns are
  assigned by index, and the chunk's index is \<open>0..n-1\<close> after \<^verbatim>\<open>reset_index\<close>, so row \<open>i\<close> is
  paired with result \<open>i\<close>.  An exception that leaves \<^verbatim>\<open>gather\<close> leaves \<^verbatim>\<open>process_chunk\<close>.
\<close>

definition process_chunk ::
  "('row \<Rightarrow> pystr) \<Rightarrow> (nat \<Rightarrow> pystr \<Rightarrow> exn + 'r) \<Rightarrow> nat list \<Rightarrow> 'row list \<Rightarrow>
   (exn + ('row \<times> 'r) list) option" where
  "process_chunk link scrape order df_chunk =
     (let tasks = map (\<lambda>url. (\<lambda>i. scrape i url)) (map link df_chunk)
      in case gather tasks order of
           None \<Rightarrow> None
         | Some (Inl e) \<Rightarrow> Some (Inl e)
         | Some (Inr results) \<Rightarrow> Some (Inr (zip df_chunk results)))"

text \<open>
  The loop of \<^verbatim>\<open>main_async\<close> over \<^verbatim>\<open>enumerate(chunks, 1)\<close>, lines 300 to 307: chunk
  \<open>idx\<close> is processed to completion before chunk \<open>idx + 1\<close> starts, and an exception that
  leaves \<^verbatim>\<open>process_chunk\<close> ends the loop.
\<close>

fun process_chunks ::
  "('row \<Rightarrow> pystr) \<Rightarrow> (nat \<Rightarrow> nat \<Rightarrow> pystr \<Rightarrow> exn + 'r) \<Rightarrow> (nat \<Rightarrow> nat list) \<Rightarrow> nat \<Rightarrow>
   'row list list \<Rightarrow> (exn + ('row \<times> 'r) list list) option" where
  "process_chunks link scrape sched idx [] = Some (Inr [])"
| "process_chunks link scrape sched idx (ch # chunks) =
     (case process_chunk link (scrape idx) (sched idx) ch of
        None \<Rightarrow> None
      | Some (Inl e) \<Rightarrow> Some (Inl e)
      | Some (Inr processed_chunk) \<Rightarrow>
          (case process_chunks link scrape sched (Suc idx) chunks of
             None \<Rightarrow> None
           | Some (Inl e) \<Rightarrow> Some (Inl e)
           | Some (Inr all_results) \<Rightarrow> Some (Inr (processed_chunk # all_results))))"

text \<open>
  What \<^verbatim>\<open>main_async\<close> needs besides the workers: starting Playwright and launching the
  browser (lines 298 and 299), closing the browser and leaving the \<^verbatim>\<open>async with\<close> block
  (line 308), and concatenating and writing the output file (lines 311 and 312).  Each
  goes through (\<open>None\<close>) or raises.
\<close>

record ('row, 'r) host =
  launch :: "exn option"
  browser_close :: "exn option"
  to_csv :: "('row \<times> 'r) list \<Rightarrow> exn option"

text \<open>
  \<^verbatim>\<open>main_async\<close> from line 294 on, for the frame \<open>df\<close> that lines 280 to 292 have read:
  chunk, launch, process the chunks, close the browser, and, if there is any result
  (line 310), concatenate and write.  \<open>None\<close>: the call never returns.  \<open>Some (Inl e)\<close>: the
  exception \<open>e\<close> leaves it and no file is written.  \<open>Some (Inr None)\<close>: it returns without
  writing a file.  \<open>Some (Inr (Some full_df))\<close>: it has written the frame \<open>full_df\<close>.
\<close>

definition main_async ::
  "('row \<Rightarrow> pystr) \<Rightarrow> (nat \<Rightarrow> nat \<Rightarrow> pystr \<Rightarrow> exn + 'r) \<Rightarrow> (nat \<Rightarrow> nat list) \<Rightarrow>
   ('row, 'r) host \<Rightarrow> int \<Rightarrow> 'row list \<Rightarrow> (exn + ('row \<times> 'r) list option) option" where
  "main_async link scrape sched H chunk_size df =
     (case chunker df chunk_size of
        Inl e \<Rightarrow> Some (Inl e)
      | Inr chunks \<Rightarrow>
          (case launch H of
             Some e \<Rightarrow> Some (Inl e)
           | None \<Rightarrow>
               (case process_chunks link scrape sched 1 chunks of
                  None \<Rightarrow> None
                | Some (Inl e) \<Rightarrow> Some (Inl e)
                | Some (Inr all_results) \<Rightarrow>
                    (case browser_close H of
                       Some e \<Rightarrow> Some (Inl e)
                     | None \<Rightarrow>
                         if all_results \<noteq> []
                         then (let full_df = concat all_results
                               in case to_csv H full_df of
                                    Some e \<Rightarrow> Some (Inl e)
                                  | None \<Rightarrow> Some (Inr (Some full_df)))
                         else Some (Inr None)))))"

section \<open>Library tables and interfaces the source calls\<close>

text \<open>
  The tables of the Python runtime that the regular expressions and conversions of the
  source consult.  They are parameters of the model: \<open>tolower\<close>, \<open>iscased\<close> and
  \<open>ignorecase_fixes\<close> are what \<^verbatim>\<open>re\<close> uses under \<^verbatim>\<open>re.IGNORECASE\<close>; \<open>digit_value\<close> gives
  the value of a Unicode decimal digit (\<^verbatim>\<open>\d\<close> matches where it is defined); \<open>isspace\<close> is
  \<^verbatim>\<open>\s\<close>; \<open>int_max_str_digits\<close> is the length beyond which \<^verbatim>\<open>int\<close> raises
  \<^verbatim>\<open>ValueError\<close>, if the runtime has such a limit.
\<close>

record pylib =
  tolower :: "nat \<Rightarrow> nat"
  iscased :: "nat \<Rightarrow> bool"
  ignorecase_fixes :: "nat \<Rightarrow> nat list"
  digit_value :: "nat \<Rightarrow> nat option"
  isspace :: "nat \<Rightarrow> bool"
  int_max_str_digits :: "nat option"

text \<open>
  One literal character \<open>p\<close> of a pattern compiled with \<^verbatim>\<open>re.IGNORECASE\<close>, against the
  subject character \<open>c\<close>: an uncased \<open>p\<close> must be met exactly; a cased one is compiled
  to its lower case \<open>lo\<close> and meets every \<open>c\<close> whose lower case is \<open>lo\<close> or one of the
  fixes of \<open>lo\<close>.
\<close>

definition literal_ignore :: "pylib \<Rightarrow> nat \<Rightarrow> nat \<Rightarrow> bool" where
  "literal_ignore U p c =
     (if iscased U p
      then tolower U c = tolower U p \<or> tolower U c \<in> set (ignorecase_fixes U (tolower U p))
      else c = p)"

text \<open>A literal string of the pattern matched at the start of the subject.\<close>

fun match_here :: "pylib \<Rightarrow> pystr \<Rightarrow> pystr \<Rightarrow> bool" where
  "match_here U [] s = True"
| "match_here U (p # ps) [] = False"
| "match_here U (p # ps) (c # cs) = (literal_ignore U p c \<and> match_here U ps cs)"

text \<open>
  \<^verbatim>\<open>pattern.search(s)\<close> as a truth value, for a pattern that is an alternation of
  literal strings compiled with \<^verbatim>\<open>re.IGNORECASE\<close>: some alternative matches at some
  position of \<open>s\<close>.
\<close>

fun re_search_ignorecase :: "pylib \<Rightarrow> pystr list \<Rightarrow> pystr \<Rightarrow> bool" where
  "re_search_ignorecase U alts [] = list_ex (\<lambda>a. match_here U a []) alts"
| "re_search_ignorecase U alts (c # cs) =
     (list_ex (\<lambda>a. match_here U a (c # cs)) alts \<or> re_search_ignorecase U alts cs)"

text \<open>Line 52.\<close>

definition CAPTCHA_RE :: "pystr list" where
  "CAPTCHA_RE =
     [ustr ''captcha'', ustr ''robot'', ustr ''verify'', ustr ''attention'',
      ustr (''v'' @ [CHR 0xE9] @ ''rification'')]"

text \<open>Line 53.\<close>

definition NOT_FOUND_RE :: "pystr list" where
  "NOT_FOUND_RE =
     [ustr ''page introuvable'', ustr (''page non trouv'' @ [CHR 0xE9] @ ''e''),
      ustr ''not found'', ustr ''ne peut pas trouver cette page'',
      ustr (''d'' @ [CHR 0xE9] @ ''sol'' @ [CHR 0xE9])]"

text \<open>\<^verbatim>\<open>needle in hay\<close> on strings.\<close>

fun py_in :: "pystr \<Rightarrow> pystr \<Rightarrow> bool" where
  "py_in needle [] = (needle = [])"
| "py_in needle (c # cs) = (prefix needle (c # cs) \<or> py_in needle cs)"

text \<open>
  The part of BeautifulSoup the source uses, over a type \<open>'e\<close> of tags (the parsed document
  is itself a tag): the parser; \<^verbatim>\<open>find_all(name)\<close>; \<^verbatim>\<open>select_one(css)\<close>;
  \<^verbatim>\<open>get_text(strip=True)\<close>; and attribute lookup, \<open>None\<close> when the tag has no such
  attribute.
\<close>

record 'e bs4 =
  BeautifulSoup :: "pystr \<Rightarrow> 'e"
  find_all :: "'e \<Rightarrow> pystr \<Rightarrow> 'e list"
  select_one :: "'e \<Rightarrow> pystr \<Rightarrow> 'e option"
  get_text :: "'e \<Rightarrow> pystr"
  get_attr :: "'e \<Rightarrow> pystr \<Rightarrow> pystr option"

text \<open>
  \<^verbatim>\<open>soup.find(name, attrs={attr: pattern})\<close> as a truth value: some tag of that name
  has the attribute, and the pattern is found in its value.
\<close>

definition soup_find :: "pylib \<Rightarrow> 'e bs4 \<Rightarrow> 'e \<Rightarrow> pystr \<Rightarrow> pystr \<Rightarrow> pystr list \<Rightarrow> bool" where
  "soup_find U B soup name attr pattern =
     list_ex (\<lambda>tag. case get_attr B tag attr of
                       None \<Rightarrow> False
                     | Some v \<Rightarrow> re_search_ignorecase U pattern v)
       (find_all B soup name)"

section \<open>Results\<close>

text \<open>
  The values a result field can hold.  A float is kept as the decimal literal it was
  parsed from (its rounding is not modelled).
\<close>

datatype pyval = PNone | PStr pystr | PFloat pystr | PInt nat

type_synonym result = "(string \<times> pyval) list"

definition result_keys :: "string list" where
  "result_keys = [''availability'', ''average_stars'', ''total_reviews'']"

text \<open>\<^verbatim>\<open>{k: s for k in ("availability", "average_stars", "total_reviews")}\<close>\<close>

definition sentinel_result :: "pystr \<Rightarrow> result" where
  "sentinel_result s = map (\<lambda>k. (k, PStr s)) result_keys"

definition page_nexiste_pas :: pystr where
  "page_nexiste_pas = ustr (''Page n'' @ [CHR 0x27] @ ''existe pas'')"

definition error_sentinel :: pystr where
  "error_sentinel = ustr ''Error''"

definition aucune_note :: pystr where
  "aucune_note = ustr ''Produit avec aucune note''"

definition not_available :: pystr where
  "not_available = ustr ''N/A''"

section \<open>HTML parsers\<close>

definition selectors_to_try :: "pystr list" where
  "selectors_to_try =
     [ustr ''#availability .a-color-success'',
      ustr ''#availability .a-color-error'',
      ustr ''#availability > span:first-of-type'',
      ustr ''#desktop_buybox_feature_div #availability span'',
      ustr ''#fodcx_feature_div #fod-cx-message-with-learn-more span:first-child'',
      ustr ''#mir-layout-DELIVERY_BLOCK-slot-PRIMARY_DELIVERY_MESSAGE_LARGE'',
      ustr ''#outOfStock span.a-color-price'',
      ustr ''#outOfStockBuyBox_feature_div span.a-color-price'']"

text \<open>The loop of \<^verbatim>\<open>extract_availability\<close>, lines 88 to 93.\<close>

fun try_selectors :: "'e bs4 \<Rightarrow> 'e \<Rightarrow> pystr list \<Rightarrow> pystr" where
  "try_selectors B soup [] = not_available"
| "try_selectors B soup (selector # rest) =
     (case select_one B soup selector of
        None \<Rightarrow> try_selectors B soup rest
      | Some element \<Rightarrow>
          (let text = get_text B element
           in if text \<noteq> []
              then (if py_in (ustr ''Lire la suite'') text
                    then try_selectors B soup rest
                    else text)
              else try_selectors B soup rest))"

definition extract_availability :: "'e bs4 \<Rightarrow> 'e \<Rightarrow> pystr" where
  "extract_availability B soup = try_selectors B soup selectors_to_try"

text \<open>\<^verbatim>\<open>s.replace(',', '.')\<close>\<close>

definition replace_comma :: "pystr \<Rightarrow> pystr" where
  "replace_comma s = map (\<lambda>c. if c = 44 then 46 else c) s"

text \<open>The class \<^verbatim>\<open>[\d,\.]\<close>.\<close>

definition numchar :: "pylib \<Rightarrow> nat \<Rightarrow> bool" where
  "numchar U c = (c = 44 \<or> c = 46 \<or> digit_value U c \<noteq> None)"

definition stars_suffixes :: "pystr list" where
  "stars_suffixes = [ustr ([CHR 0xE9] @ ''toiles sur 5''), ustr ''out of 5 stars'']"

text \<open>
  The rest of the pattern of line 104 after its first group, white space and one of the
  two suffixes, at the start of \<open>s\<close>: some number of the leading
  white space is skipped and an alternative follows.
\<close>

definition stars_tail :: "pylib \<Rightarrow> pystr \<Rightarrow> bool" where
  "stars_tail U s =
     list_ex (\<lambda>k. list_ex (\<lambda>a. prefix a (drop k s)) stars_suffixes)
       [0..<Suc (length (takeWhile (isspace U) s))]"

text \<open>
  The whole pattern of line 104 at the start of \<open>s\<close>: the group takes the longest run
  of the class after which the rest matches (the longest is tried first).  The result is
  the length of the group.
\<close>

definition stars_here :: "pylib \<Rightarrow> pystr \<Rightarrow> nat option" where
  "stars_here U s =
     find (\<lambda>j. stars_tail U (drop j s)) (rev [1..<Suc (length (takeWhile (numchar U) s))])"

text \<open>\<^verbatim>\<open>re.search\<close> with the pattern of line 104; the result is \<^verbatim>\<open>match.group(1)\<close>.\<close>

fun search_stars :: "pylib \<Rightarrow> pystr \<Rightarrow> pystr option" where
  "search_stars U [] = None"
| "search_stars U (c # cs) =
     (case stars_here U (c # cs) of
        Some j \<Rightarrow> Some (take j (c # cs))
      | None \<Rightarrow> search_stars U cs)"

text \<open>\<^verbatim>\<open>re.search(r'([\d,\.]+)', s)\<close>; the result is \<^verbatim>\<open>match.group(1)\<close>.\<close>

fun search_number :: "pylib \<Rightarrow> pystr \<Rightarrow> pystr option" where
  "search_number U [] = None"
| "search_number U (c # cs) =
     (if numchar U c then Some (takeWhile (numchar U) (c # cs)) else search_number U cs)"

text \<open>
  \<^verbatim>\<open>float(s)\<close> for a string of the class \<^verbatim>\<open>[\d,\.]\<close>: it is a number when it has a digit,
  at most one point and no comma; otherwise \<^verbatim>\<open>ValueError\<close> (\<open>None\<close>).
\<close>

definition py_float :: "pylib \<Rightarrow> pystr \<Rightarrow> pyval option" where
  "py_float U s =
     (if list_all (\<lambda>c. c = 46 \<or> digit_value U c \<noteq> None) s \<and>
         list_ex (\<lambda>c. digit_value U c \<noteq> None) s \<and>
         length (filter (\<lambda>c. c = 46) s) \<le> 1
      then Some (PFloat s) else None)"

text \<open>\<^verbatim>\<open>re.sub(r'\D', '', s)\<close>\<close>

definition only_digits :: "pylib \<Rightarrow> pystr \<Rightarrow> pystr" where
  "only_digits U s = filter (\<lambda>c. digit_value U c \<noteq> None) s"

text \<open>\<^verbatim>\<open>int(s)\<close> for a non-empty string of decimal digits.\<close>

definition py_int :: "pylib \<Rightarrow> pystr \<Rightarrow> pyval option" where
  "py_int U s =
     (if (case int_max_str_digits U of None \<Rightarrow> False | Some m \<Rightarrow> m < length s)
      then None
      else Some (PInt (foldl (\<lambda>acc c. 10 * acc + (case digit_value U c of None \<Rightarrow> 0 | Some d \<Rightarrow> d))
                        0 s)))"

text \<open>
  Lines 102 to 109: the rating read from the title of the popover; the no-rating
  sentinel when there is none.
\<close>

definition popover_stars :: "pylib \<Rightarrow> 'e bs4 \<Rightarrow> 'e \<Rightarrow> pyval" where
  "popover_stars U B reviews_section =
     (case select_one B reviews_section (ustr ''#acrPopover'') of
        None \<Rightarrow> PStr aucune_note
      | Some popover \<Rightarrow>
          (case get_attr B popover (ustr ''title'') of
             None \<Rightarrow> PStr aucune_note
           | Some title \<Rightarrow>
               (case search_stars U (replace_comma title) of
                  None \<Rightarrow> PStr aucune_note
                | Some g \<Rightarrow>
                    (case py_float U g of
                       None \<Rightarrow> PStr aucune_note
                     | Some f \<Rightarrow> f))))"

text \<open>
  Lines 111 to 119: when \<open>stars\<close> is still the sentinel, the rating read from the text of
  the star icon.
\<close>

definition icon_stars :: "pylib \<Rightarrow> 'e bs4 \<Rightarrow> 'e \<Rightarrow> pyval \<Rightarrow> pyval" where
  "icon_stars U B reviews_section stars =
     (if stars = PStr aucune_note
      then (case select_one B reviews_section (ustr ''span.a-icon-alt'') of
              None \<Rightarrow> stars
            | Some star_span \<Rightarrow>
                (let text = get_text B star_span
                 in if text \<noteq> []
                    then (case search_number U (replace_comma text) of
                            None \<Rightarrow> stars
                          | Some g \<Rightarrow>
                              (case py_float U g of
                                 None \<Rightarrow> stars
                               | Some f \<Rightarrow> f))
                    else stars))
      else stars)"

text \<open>Lines 121 to 128: the number of reviews.\<close>

definition count_reviews :: "pylib \<Rightarrow> 'e bs4 \<Rightarrow> 'e \<Rightarrow> pyval" where
  "count_reviews U B reviews_section =
     (case select_one B reviews_section (ustr ''#acrCustomerReviewText'') of
        None \<Rightarrow> PStr aucune_note
      | Some review_text_element \<Rightarrow>
          (let text = get_text B review_text_element;
               digits = only_digits U text
           in if text \<noteq> [] \<and> digits \<noteq> []
              then (case py_int U digits of
                      None \<Rightarrow> PStr aucune_note
                    | Some n \<Rightarrow> n)
              else PStr aucune_note))"

text \<open>\<^verbatim>\<open>extract_reviews_info\<close>, lines 95 to 130.\<close>

definition extract_reviews_info :: "pylib \<Rightarrow> 'e bs4 \<Rightarrow> 'e \<Rightarrow> pyval \<times> pyval" where
  "extract_reviews_info U B soup =
     (case select_one B soup (ustr ''#averageCustomerReviews_feature_div, #averageCustomerReviews'') of
        None \<Rightarrow> (PStr aucune_note, PStr aucune_note)
      | Some reviews_section \<Rightarrow>
          (icon_stars U B reviews_section (popover_stars U B reviews_section),
           count_reviews U B reviews_section))"

text \<open>\<^verbatim>\<open>is_page_blocked\<close>, lines 151 to 159.\<close>

definition is_page_blocked :: "pylib \<Rightarrow> 'e bs4 \<Rightarrow> pystr \<Rightarrow> pystr \<Rightarrow> bool" where
  "is_page_blocked U B html page_title =
     (if re_search_ignorecase U CAPTCHA_RE page_title then True
      else (let soup = BeautifulSoup B html
            in if soup_find U B soup (ustr ''form'') (ustr ''action'') [ustr ''validateCaptcha'']
               then True
               else if soup_find U B soup (ustr ''img'') (ustr ''src'') [ustr ''/captcha/'']
               then True
               else False))"

section \<open>The browser and the worker's state\<close>

text \<open>
  Every awaited call on the browser, its pages and the OCR solver either returns a value
  or raises, and changes the world outside the program.  The world is a parameter \<open>'w\<close>;
  an operation maps it to its outcome and the new world.
\<close>

type_synonym ('w, 'a) op = "'w \<Rightarrow> (exn + 'a) \<times> 'w"

text \<open>
  The operations, by the place the source calls them:
  \<^item> \<open>new_context\<close>, \<open>new_page\<close>, \<open>stealth_async\<close> (\<open>None\<close> when the import of line 37
    failed), \<open>goto\<close> (the response's status, or \<open>None\<close> for no response), \<open>title\<close>,
    \<open>content\<close>, \<open>close\<close> (of the context), \<open>wait_for_timeout\<close>: \<^verbatim>\<open>scrape_one\<close>;
  \<^item> \<open>accept_wait_visible\<close>, \<open>accept_click\<close>, \<open>accept_wait_hidden\<close>:
    \<^verbatim>\<open>handle_cookie_consent\<close>;
  \<^item> \<open>continue_is_visible\<close>, \<open>continue_click\<close>, \<open>wait_for_load_state\<close>,
    \<open>captcha_is_visible\<close>, \<open>captcha_get_src\<close>, \<open>captcha_solve\<close>, \<open>captcha_fill\<close>,
    \<open>submit_click\<close>: \<^verbatim>\<open>handle_blocking_page\<close>.
\<close>

record 'w playwright =
  new_context :: "('w, unit) op"
  new_page :: "('w, unit) op"
  stealth_async :: "('w, unit) op option"
  goto :: "pystr \<Rightarrow> ('w, int option) op"
  title :: "('w, pystr) op"
  content :: "('w, pystr) op"
  close :: "('w, unit) op"
  wait_for_timeout :: "('w, unit) op"
  accept_wait_visible :: "('w, unit) op"
  accept_click :: "('w, unit) op"
  accept_wait_hidden :: "('w, unit) op"
  continue_is_visible :: "('w, bool) op"
  continue_click :: "('w, unit) op"
  wait_for_load_state :: "('w, unit) op"
  captcha_is_visible :: "('w, bool) op"
  captcha_get_src :: "('w, pystr option) op"
  captcha_solve :: "pystr option \<Rightarrow> ('w, pystr) op"
  captcha_fill :: "pystr \<Rightarrow> ('w, unit) op"
  submit_click :: "('w, unit) op"

datatype call =
    NewContext | NewPage | StealthAsync | Goto | Title | Content | Close | WaitForTimeout
  | AcceptWaitVisible | AcceptClick | AcceptWaitHidden
  | ContinueIsVisible | ContinueClick | WaitForLoadState
  | CaptchaIsVisible | CaptchaGetSrc | CaptchaSolve | CaptchaFill | SubmitClick

text \<open>The \<^verbatim>\<open>logger\<close> calls of the source, by line.\<close>

datatype logline =
    CookieBanner | CookieClosed | CookieError
  | SimpleCheck | ContinueFailed | NoImageCaptcha | ImageCaptcha | OcrSolution | OcrFailed
  | CaptchaSolved | CaptchaStillBlocked | CaptchaTimeout
  | Navigating nat | HttpStatus | ErrorTitle | BlockedDetected | Success
  | AttemptFailed nat | AllFailed

text \<open>
  What a worker is seen to do, in order: the two kinds of \<^verbatim>\<open>asyncio.sleep\<close> (line 207
  and line 260), taking and giving back the semaphore, each call on the browser with how
  it ended, and each log line.
\<close>

datatype event =
    SleepJitter | SleepBackoff | Acquire | Release
  | Returned call | Raised call | Log logline

text \<open>
  The state a worker threads through: the world, the events so far, and whether the
  local variable \<^verbatim>\<open>context\<close> of \<^verbatim>\<open>scrape_one\<close> holds a context (is not \<^verbatim>\<open>None\<close>).
\<close>

record 'w state =
  world :: 'w
  trace :: "event list"
  has_context :: bool

type_synonym ('w, 'a) prog = "'w state \<Rightarrow> (exn + 'a) \<times> 'w state"

definition ret :: "'a \<Rightarrow> ('w, 'a) prog" where
  "ret x = (\<lambda>s. (Inr x, s))"

definition raise :: "exn \<Rightarrow> ('w, 'a) prog" where
  "raise e = (\<lambda>s. (Inl e, s))"

text \<open>Sequencing: an exception of the first part skips the second.\<close>

definition bnd :: "('w, 'a) prog \<Rightarrow> ('a \<Rightarrow> ('w, 'b) prog) \<Rightarrow> ('w, 'b) prog" where
  "bnd m k = (\<lambda>s. case m s of (Inl e, s') \<Rightarrow> (Inl e, s') | (Inr x, s') \<Rightarrow> k x s')"

text \<open>\<^verbatim>\<open>try: m  except Exception as e: h e\<close>\<close>

definition catch :: "('w, 'a) prog \<Rightarrow> (exn \<Rightarrow> ('w, 'a) prog) \<Rightarrow> ('w, 'a) prog" where
  "catch m h = (\<lambda>s. case m s of (Inl e, s') \<Rightarrow> h e s' | (Inr x, s') \<Rightarrow> (Inr x, s'))"

definition emit :: "event \<Rightarrow> ('w, unit) prog" where
  "emit ev = (\<lambda>s. (Inr (), s\<lparr>trace := trace s @ [ev]\<rparr>))"

definition call :: "call \<Rightarrow> ('w, 'a) op \<Rightarrow> ('w, 'a) prog" where
  "call c f =
     (\<lambda>s. case f (world s) of
             (Inl e, w) \<Rightarrow> (Inl e, s\<lparr>world := w, trace := trace s @ [Raised c]\<rparr>)
           | (Inr x, w) \<Rightarrow> (Inr x, s\<lparr>world := w, trace := trace s @ [Returned c]\<rparr>))"

definition set_context :: "bool \<Rightarrow> ('w, unit) prog" where
  "set_context b = (\<lambda>s. (Inr (), s\<lparr>has_context := b\<rparr>))"

text \<open>
  \<^verbatim>\<open>async with sem: m\<close>: the permit is given back when the block is left, by a return or
  by an exception alike.
\<close>

definition with_sem :: "('w, 'a) prog \<Rightarrow> ('w, 'a) prog" where
  "with_sem m =
     bnd (emit Acquire)
       (\<lambda>_ s. case m s of (r, s') \<Rightarrow> (r, s'\<lparr>trace := trace s' @ [Release]\<rparr>))"

section \<open>Cookie consent and block recovery\<close>

text \<open>\<^verbatim>\<open>handle_cookie_consent\<close>, lines 134 to 149.\<close>

definition handle_cookie_consent :: "'w playwright \<Rightarrow> ('w, bool) prog" where
  "handle_cookie_consent P =
     catch
       (bnd (call AcceptWaitVisible (accept_wait_visible P)) (\<lambda>_.
        bnd (emit (Log CookieBanner)) (\<lambda>_.
        bnd (call AcceptClick (accept_click P)) (\<lambda>_.
        bnd (call AcceptWaitHidden (accept_wait_hidden P)) (\<lambda>_.
        bnd (emit (Log CookieClosed)) (\<lambda>_.
        bnd (call WaitForTimeout (wait_for_timeout P)) (\<lambda>_.
        ret True)))))))
       (\<lambda>e. if e = PlaywrightTimeoutError then ret False
            else bnd (emit (Log CookieError)) (\<lambda>_. ret False))"

text \<open>\<^verbatim>\<open>handle_blocking_page\<close>, lines 161 to 202.\<close>

definition handle_blocking_page :: "pylib \<Rightarrow> 'e bs4 \<Rightarrow> 'w playwright \<Rightarrow> ('w, bool) prog" where
  "handle_blocking_page U B P =
     bnd (call ContinueIsVisible (continue_is_visible P)) (\<lambda>continue_visible.
     if continue_visible
     then bnd (emit (Log SimpleCheck)) (\<lambda>_.
          catch
            (bnd (call ContinueClick (continue_click P)) (\<lambda>_.
             bnd (call WaitForLoadState (wait_for_load_state P)) (\<lambda>_.
             ret True)))
            (\<lambda>e. bnd (emit (Log ContinueFailed)) (\<lambda>_. ret False)))
     else
     bnd (call CaptchaIsVisible (captcha_is_visible P)) (\<lambda>captcha_visible.
     if \<not> captcha_visible
     then bnd (emit (Log NoImageCaptcha)) (\<lambda>_. ret False)
     else
     bnd (emit (Log ImageCaptcha)) (\<lambda>_.
     bnd (call CaptchaGetSrc (captcha_get_src P)) (\<lambda>img_src.
     bnd (catch
            (bnd (call CaptchaSolve (captcha_solve P img_src)) (\<lambda>solution.
             bnd (emit (Log OcrSolution)) (\<lambda>_.
             ret (Some solution))))
            (\<lambda>e. bnd (emit (Log OcrFailed)) (\<lambda>_. ret None))) (\<lambda>solved.
     case solved of
       None \<Rightarrow> ret False
     | Some solution \<Rightarrow>
         bnd (call CaptchaFill (captcha_fill P solution)) (\<lambda>_.
         bnd (call SubmitClick (submit_click P)) (\<lambda>_.
         catch
           (bnd (call WaitForLoadState (wait_for_load_state P)) (\<lambda>_.
            bnd (call Content (content P)) (\<lambda>final_html.
            bnd (call Title (title P)) (\<lambda>final_title.
            if \<not> is_page_blocked U B final_html final_title
            then bnd (emit (Log CaptchaSolved)) (\<lambda>_. ret True)
            else bnd (emit (Log CaptchaStillBlocked)) (\<lambda>_. ret False)))))
           (\<lambda>e. if e = PlaywrightTimeoutError
                then bnd (emit (Log CaptchaTimeout)) (\<lambda>_. ret False)
                else raise e))))))))"

section \<open>The worker\<close>

definition MAX_RETRIES :: nat where
  "MAX_RETRIES = 3"

text \<open>
  The loop of lines 234 to 245 over the rounds still to run: \<^verbatim>\<open>break\<close> leaves it
  normally, and running out of rounds is the \<^verbatim>\<open>else\<close> branch of the \<^verbatim>\<open>for\<close>.
\<close>

fun block_rounds :: "pylib \<Rightarrow> 'e bs4 \<Rightarrow> 'w playwright \<Rightarrow> nat list \<Rightarrow> ('w, unit) prog" where
  "block_rounds U B P [] = raise RuntimeError"
| "block_rounds U B P (round # rounds) =
     bnd (call Content (content P)) (\<lambda>html.
     bnd (call Title (title P)) (\<lambda>page_title.
     if is_page_blocked U B html page_title
     then bnd (emit (Log BlockedDetected)) (\<lambda>_.
          bnd (handle_blocking_page U B P) (\<lambda>cleared.
          if \<not> cleared then raise RuntimeError
          else bnd (call WaitForTimeout (wait_for_timeout P)) (\<lambda>_.
               block_rounds U B P rounds)))
     else ret ()))"

text \<open>Lines 246 to 254: extraction from the final page.\<close>

definition extract_and_close :: "pylib \<Rightarrow> 'e bs4 \<Rightarrow> 'w playwright \<Rightarrow> ('w, result) prog" where
  "extract_and_close U B P =
     bnd (call Content (content P)) (\<lambda>final_html.
     let soup = BeautifulSoup B final_html;
         avail = extract_availability B soup;
         (stars, reviews) = extract_reviews_info U B soup
     in bnd (emit (Log Success)) (\<lambda>_.
        bnd (call Close (close P)) (\<lambda>_.
        ret [(''availability'', PStr avail), (''average_stars'', stars),
             (''total_reviews'', reviews)])))"

text \<open>
  Lines 212 to 221: a fresh context and page, the stealth patch when it was imported, and
  the navigation.  The value is the response: its status, or \<open>None\<close> when \<^verbatim>\<open>page.goto\<close>
  returned no response.
\<close>

definition navigate :: "'w playwright \<Rightarrow> pystr \<Rightarrow> nat \<Rightarrow> ('w, int option) prog" where
  "navigate P url attempt =
     bnd (call NewContext (new_context P)) (\<lambda>_.
     bnd (set_context True) (\<lambda>_.
     bnd (call NewPage (new_page P)) (\<lambda>_.
     bnd (case stealth_async P of None \<Rightarrow> ret () | Some f \<Rightarrow> call StealthAsync f) (\<lambda>_.
     bnd (emit (Log (Navigating attempt))) (\<lambda>_.
     call Goto (goto P url))))))"

text \<open>
  Lines 223 to 254: what the attempt does with the response \<open>resp\<close>.  It ends by a
  \<^verbatim>\<open>return\<close> of the function (a result) or by an exception.
\<close>

definition after_goto ::
  "pylib \<Rightarrow> 'e bs4 \<Rightarrow> 'w playwright \<Rightarrow> int option \<Rightarrow> ('w, result) prog" where
  "after_goto U B P resp =
     (if (case resp of None \<Rightarrow> False | Some status \<Rightarrow> 400 \<le> status)
      then bnd (emit (Log HttpStatus)) (\<lambda>_.
           bnd (call Close (close P)) (\<lambda>_.
           ret (sentinel_result page_nexiste_pas)))
      else
      bnd (call Title (title P)) (\<lambda>page_title.
      if re_search_ignorecase U NOT_FOUND_RE page_title
      then bnd (emit (Log ErrorTitle)) (\<lambda>_.
           bnd (call Close (close P)) (\<lambda>_.
           ret (sentinel_result page_nexiste_pas)))
      else
      bnd (handle_cookie_consent P) (\<lambda>_.
      bnd (block_rounds U B P [0..<2]) (\<lambda>_.
      extract_and_close U B P))))"

text \<open>The body of the \<^verbatim>\<open>async with sem\<close> block, lines 212 to 254.\<close>

definition attempt_body ::
  "pylib \<Rightarrow> 'e bs4 \<Rightarrow> 'w playwright \<Rightarrow> pystr \<Rightarrow> nat \<Rightarrow> ('w, result) prog" where
  "attempt_body U B P url attempt = bnd (navigate P url attempt) (after_goto U B P)"

text \<open>
  The \<^verbatim>\<open>for attempt in range(1, MAX_RETRIES + 1)\<close> loop of lines 208 to 264 over the
  attempts still to make, with its \<^verbatim>\<open>try\<close> and \<^verbatim>\<open>except\<close>.  An exception raised inside
  the handler itself is not caught.
\<close>

fun attempts ::
  "pylib \<Rightarrow> 'e bs4 \<Rightarrow> 'w playwright \<Rightarrow> pystr \<Rightarrow> nat list \<Rightarrow> ('w, result) prog" where
  "attempts U B P url [] = ret (sentinel_result error_sentinel)"
| "attempts U B P url (attempt # rest) =
     bnd (set_context False) (\<lambda>_.
     catch (with_sem (attempt_body U B P url attempt))
       (\<lambda>e. bnd (emit (Log (AttemptFailed attempt))) (\<lambda>_.
            bnd (\<lambda>s. if has_context s then call Close (close P) s else ret () s) (\<lambda>_.
            if attempt < MAX_RETRIES
            then bnd (emit SleepBackoff) (\<lambda>_. attempts U B P url rest)
            else bnd (emit (Log AllFailed)) (\<lambda>_. ret (sentinel_result error_sentinel))))))"

text \<open>\<^verbatim>\<open>scrape_one\<close>, lines 206 to 264.\<close>

definition scrape_one :: "pylib \<Rightarrow> 'e bs4 \<Rightarrow> 'w playwright \<Rightarrow> pystr \<Rightarrow> ('w, result) prog" where
  "scrape_one U B P url =
     bnd (emit SleepJitter) (\<lambda>_. attempts U B P url [1..<MAX_RETRIES + 1])"

text \<open>The state in which a worker starts, in world \<open>w\<close>.\<close>

definition start :: "'w \<Rightarrow> 'w state" where
  "start w = \<lparr>world = w, trace = [], has_context = False\<rparr>"

section \<open>Workers running together\<close>

definition MAX_CONCURRENCY :: nat where
  "MAX_CONCURRENCY = 5"

text \<open>
  The workers of one chunk share the semaphore that \<^verbatim>\<open>process_chunk\<close> creates (line
  269).  The system's state: the permits left; for each worker, whether it holds a permit,
  whether a context it opened is still open, and the events it has still to perform.
\<close>

record sys =
  permits :: nat
  holding :: "bool list"
  session_open :: "bool list"
  pending :: "event list list"

definition sys_init :: "nat \<Rightarrow> event list list \<Rightarrow> sys" where
  "sys_init k workers =
     \<lparr>permits = k, holding = map (\<lambda>_. False) workers,
      session_open = map (\<lambda>_. False) workers, pending = workers\<rparr>"

text \<open>
  Worker \<open>i\<close> performs its next event.  \<open>Acquire\<close> needs a permit and takes it;
  \<open>Release\<close> gives it back; a context is open from the return of \<^verbatim>\<open>new_context\<close> to the
  return of \<^verbatim>\<open>close\<close>.  \<open>None\<close>: the worker has finished, or waits for a permit.
\<close>

definition sys_step :: "nat \<Rightarrow> sys \<Rightarrow> sys option" where
  "sys_step i st =
     (if i < length (pending st)
      then (case pending st ! i of
              [] \<Rightarrow> None
            | ev # rest \<Rightarrow>
                if ev = Acquire \<and> permits st = 0 then None
                else Some
                  \<lparr>permits =
                     (if ev = Acquire then permits st - 1
                      else if ev = Release then permits st + 1
                      else permits st),
                   holding =
                     (if ev = Acquire then (holding st)[i := True]
                      else if ev = Release then (holding st)[i := False]
                      else holding st),
                   session_open =
                     (if ev = Returned NewContext then (session_open st)[i := True]
                      else if ev = Returned Close then (session_open st)[i := False]
                      else session_open st),
                   pending = (pending st)[i := rest]\<rparr>)
      else None)"

text \<open>A schedule names the worker that moves at each step.\<close>

fun sys_run :: "nat list \<Rightarrow> sys \<Rightarrow> sys option" where
  "sys_run [] st = Some st"
| "sys_run (i # sched) st =
     (case sys_step i st of None \<Rightarrow> None | Some st' \<Rightarrow> sys_run sched st')"

definition open_sessions :: "sys \<Rightarrow> nat" where
  "open_sessions st = length (filter (\<lambda>b. b) (session_open st))"

definition permit_holders :: "sys \<Rightarrow> nat" where
  "permit_holders st = length (filter (\<lambda>b. b) (holding st))"

text \<open>
  The workers that \<^verbatim>\<open>process_chunk\<close> starts for the links \<open>urls\<close>, worker \<open>i\<close> meeting
  the world \<open>worlds ! i\<close>, under a semaphore of \<open>MAX_CONCURRENCY\<close> permits.
\<close>

definition chunk_system ::
  "pylib \<Rightarrow> 'e bs4 \<Rightarrow> 'w playwright \<Rightarrow> pystr list \<Rightarrow> 'w list \<Rightarrow> sys" where
  "chunk_system U B P urls worlds =
     sys_init MAX_CONCURRENCY
       (map (\<lambda>(url, w). trace (snd (scrape_one U B P url (start w)))) (zip urls worlds))"

section \<open>Properties of traces\<close>

text \<open>
  Whether every request of a trace (a call of \<^verbatim>\<open>page.goto\<close>) has a jitter sleep before
  it that no earlier request has used; \<open>j\<close> tells whether such a sleep is at hand.
\<close>

fun jitter_before_each_request :: "bool \<Rightarrow> event list \<Rightarrow> bool" where
  "jitter_before_each_request j [] = True"
| "jitter_before_each_request j (ev # evs) =
     (if ev = SleepJitter then jitter_before_each_request True evs
      else if ev = Returned Goto \<or> ev = Raised Goto
      then j \<and> jitter_before_each_request False evs
      else jitter_before_each_request j evs)"

text \<open>The number of attempts of a trace: each attempt takes the semaphore once.\<close>

definition attempts_made :: "event list \<Rightarrow> nat" where
  "attempts_made evs = length (filter (\<lambda>ev. ev = Acquire) evs)"

text \<open>The steps of one round of the loop of lines 234 to 245, for stating what it does.\<close>

definition classify :: "pylib \<Rightarrow> 'e bs4 \<Rightarrow> 'w playwright \<Rightarrow> ('w, bool) prog" where
  "classify U B P =
     bnd (call Content (content P)) (\<lambda>html.
     bnd (call Title (title P)) (\<lambda>page_title.
     ret (is_page_blocked U B html page_title)))"

definition clear_block :: "pylib \<Rightarrow> 'e bs4 \<Rightarrow> 'w playwright \<Rightarrow> ('w, bool) prog" where
  "clear_block U B P = bnd (emit (Log BlockedDetected)) (\<lambda>_. handle_blocking_page U B P)"

definition pause :: "'w playwright \<Rightarrow> ('w, unit) prog" where
  "pause P = call WaitForTimeout (wait_for_timeout P)"

text \<open>
  Whether the string \<open>s\<close> contains \<open>word\<close> when letters are compared by their lower
  case.
\<close>

fun lower_prefix :: "pylib \<Rightarrow> pystr \<Rightarrow> pystr \<Rightarrow> bool" where
  "lower_prefix U [] s = True"
| "lower_prefix U (p # ps) [] = False"
| "lower_prefix U (p # ps) (c # cs) = (tolower U c = tolower U p \<and> lower_prefix U ps cs)"

fun contains_ignoring_case :: "pylib \<Rightarrow> pystr \<Rightarrow> pystr \<Rightarrow> bool" where
  "contains_ignoring_case U word [] = lower_prefix U word []"
| "contains_ignoring_case U word (c # cs) =
     (lower_prefix U word (c # cs) \<or> contains_ignoring_case U word cs)"

section \<open>A small world for examples\<close>

text \<open>
  The tables on the Latin-1 code points (every code point above them is taken as an
  uncased symbol): enough for the examples, which use no other character.
\<close>

definition latin1 :: pylib where
  "latin1 =
     \<lparr>tolower = (\<lambda>c. if (65 \<le> c \<and> c \<le> 90) \<or> (192 \<le> c \<and> c \<le> 222 \<and> c \<noteq> 215)
                      then c + 32 else c),
      iscased = (\<lambda>c. (65 \<le> c \<and> c \<le> 90) \<or> (97 \<le> c \<and> c \<le> 122) \<or> c = 170 \<or> c = 181 \<or>
                      c = 186 \<or> (192 \<le> c \<and> c \<le> 255 \<and> c \<noteq> 215 \<and> c \<noteq> 247)),
      ignorecase_fixes = (\<lambda>c. if c = 105 then [305] else if c = 115 then [383]
                               else if c = 181 then [956] else []),
      digit_value = (\<lambda>c. if 48 \<le> c \<and> c \<le> 57 then Some (c - 48) else None),
      isspace = (\<lambda>c. c = 32 \<or> (9 \<le> c \<and> c \<le> 13) \<or> (28 \<le> c \<and> c \<le> 31) \<or> c = 133 \<or> c = 160),
      int_max_str_digits = Some 4300\<rparr>"

text \<open>
  A parsed tag for examples: its name, attributes and stripped text, the tags below it,
  and the tag that each selector of interest selects below it.
\<close>

datatype node =
  Node (node_name: pystr) (node_attrs: "(pystr \<times> pystr) list") (node_text: pystr)
       (node_tags: "node list") (node_selects: "(pystr \<times> node) list")

text \<open>
  BeautifulSoup over a table \<open>pages\<close> from HTML sources to parsed documents; a source that
  the table does not list parses to the empty document.
\<close>

definition table_bs4 :: "(pystr \<times> node) list \<Rightarrow> node bs4" where
  "table_bs4 pages =
     \<lparr>BeautifulSoup = (\<lambda>html. case map_of pages html of
                                 None \<Rightarrow> Node [] [] [] [] []
                               | Some document \<Rightarrow> document),
      find_all = (\<lambda>n name. filter (\<lambda>t. node_name t = name) (node_tags n)),
      select_one = (\<lambda>n selector. map_of (node_selects n) selector),
      get_text = node_text,
      get_attr = (\<lambda>n attr. map_of (node_attrs n) attr)\<rparr>"

text \<open>A product page in stock, rated 4,5 by 1 234 reviews, and a CAPTCHA page.\<close>

definition product_page :: node where
  "product_page =
     Node [] [] [] []
       [(ustr ''#availability .a-color-success'', Node (ustr ''span'') [] (ustr ''En stock'') [] []),
        (ustr ''#averageCustomerReviews_feature_div, #averageCustomerReviews'',
         Node (ustr ''div'') [] [] []
           [(ustr ''#acrPopover'',
             Node (ustr ''span'')
               [(ustr ''title'', ustr (''4,5 sur 5 '' @ [CHR 0xE9] @ ''toiles, 4,5 '' @ [CHR 0xE9] @ ''toiles sur 5''))]
               [] [] []),
            (ustr ''#acrCustomerReviewText'',
             Node (ustr ''span'') [] (ustr (''1 234 '' @ [CHR 0xE9] @ ''valuations'')) [] [])])]"

definition captcha_page :: node where
  "captcha_page =
     Node [] [] []
       [Node (ustr ''form'') [(ustr ''action'', ustr ''/errors/validateCaptcha'')] [] [] [],
        Node (ustr ''img'') [(ustr ''src'', ustr ''https://images.example/captcha/abc.jpg'')] [] [] []]
       []"

definition example_pages :: "(pystr \<times> node) list" where
  "example_pages = [(ustr ''product'', product_page), (ustr ''captcha'', captcha_page)]"

text \<open>
  A scripted browser: the world is the list of the replies that the calls still to come
  will get, one reply per call.  A call that meets a reply of another kind, or no reply,
  raises.
\<close>

datatype reply =
    Fails exn | Returns | Says bool | Text pystr | Response "int option" | Src "pystr option"

definition reply_unit :: "(reply list, unit) op" where
  "reply_unit w =
     (case w of
        [] \<Rightarrow> (Inl PlaywrightError, [])
      | r # rest \<Rightarrow>
          (case r of Fails e \<Rightarrow> (Inl e, rest) | Returns \<Rightarrow> (Inr (), rest)
           | Says b \<Rightarrow> (Inl PlaywrightError, rest) | Text t \<Rightarrow> (Inl PlaywrightError, rest)
           | Response x \<Rightarrow> (Inl PlaywrightError, rest) | Src x \<Rightarrow> (Inl PlaywrightError, rest)))"

definition reply_bool :: "(reply list, bool) op" where
  "reply_bool w =
     (case w of
        [] \<Rightarrow> (Inl PlaywrightError, [])
      | r # rest \<Rightarrow>
          (case r of Fails e \<Rightarrow> (Inl e, rest) | Returns \<Rightarrow> (Inl PlaywrightError, rest)
           | Says b \<Rightarrow> (Inr b, rest) | Text t \<Rightarrow> (Inl PlaywrightError, rest)
           | Response x \<Rightarrow> (Inl PlaywrightError, rest) | Src x \<Rightarrow> (Inl PlaywrightError, rest)))"

definition reply_text :: "(reply list, pystr) op" where
  "reply_text w =
     (case w of
        [] \<Rightarrow> (Inl PlaywrightError, [])
      | r # rest \<Rightarrow>
          (case r of Fails e \<Rightarrow> (Inl e, rest) | Returns \<Rightarrow> (Inl PlaywrightError, rest)
           | Says b \<Rightarrow> (Inl PlaywrightError, rest) | Text t \<Rightarrow> (Inr t, rest)
           | Response x \<Rightarrow> (Inl PlaywrightError, rest) | Src x \<Rightarrow> (Inl PlaywrightError, rest)))"

definition reply_response :: "(reply list, int option) op" where
  "reply_response w =
     (case w of
        [] \<Rightarrow> (Inl PlaywrightError, [])
      | r # rest \<Rightarrow>
          (case r of Fails e \<Rightarrow> (Inl e, rest) | Returns \<Rightarrow> (Inl PlaywrightError, rest)
           | Says b \<Rightarrow> (Inl PlaywrightError, rest) | Text t \<Rightarrow> (Inl PlaywrightError, rest)
           | Response x \<Rightarrow> (Inr x, rest) | Src x \<Rightarrow> (Inl PlaywrightError, rest)))"

definition reply_src :: "(reply list, pystr option) op" where
  "reply_src w =
     (case w of
        [] \<Rightarrow> (Inl PlaywrightError, [])
      | r # rest \<Rightarrow>
          (case r of Fails e \<Rightarrow> (Inl e, rest) | Returns \<Rightarrow> (Inl PlaywrightError, rest)
           | Says b \<Rightarrow> (Inl PlaywrightError, rest) | Text t \<Rightarrow> (Inl PlaywrightError, rest)
           | Response x \<Rightarrow> (Inl PlaywrightError, rest) | Src x \<Rightarrow> (Inr x, rest)))"

text \<open>The scripted browser; the stealth patch is not installed.\<close>

definition scripted :: "reply list playwright" where
  "scripted =
     \<lparr>new_context = reply_unit, new_page = reply_unit, stealth_async = None,
      goto = (\<lambda>url. reply_response), title = reply_text, content = reply_text,
      close = reply_unit, wait_for_timeout = reply_unit,
      accept_wait_visible = reply_unit, accept_click = reply_unit,
      accept_wait_hidden = reply_unit,
      continue_is_visible = reply_bool, continue_click = reply_unit,
      wait_for_load_state = reply_unit,
      captcha_is_visible = reply_bool, captcha_get_src = reply_src,
      captcha_solve = (\<lambda>src. reply_text), captcha_fill = (\<lambda>solution. reply_unit),
      submit_click = reply_unit\<rparr>"

text \<open>
  Scripts.  \<open>script_success\<close>: one attempt on the product page; no cookie banner shows
  (the wait for it times out), the page is not blocked.
\<close>

definition script_success :: "reply list" where
  "script_success =
     [Returns, Returns, Response (Some 200), Text (ustr ''Amazon.fr''),
      Fails PlaywrightTimeoutError,
      Text (ustr ''product''), Text (ustr ''Amazon.fr''),
      Text (ustr ''product''), Returns]"

text \<open>
  \<open>script_404\<close>: the navigation is answered with status 404.  \<open>script_404_close_fails\<close>:
  the same, but closing the context raises once; the handler's close and the whole second
  attempt go through.
\<close>

definition script_404 :: "reply list" where
  "script_404 = [Returns, Returns, Response (Some 404), Returns]"

definition script_404_close_fails :: "reply list" where
  "script_404_close_fails =
     [Returns, Returns, Response (Some 404), Fails PlaywrightError, Returns,
      Returns, Returns, Response (Some 404), Returns]"

text \<open>
  \<open>script_nothing_to_clear\<close>: the first attempt meets a page whose title is that of a
  robot check, with neither a continue button nor a CAPTCHA image visible; the second
  attempt is \<open>script_success\<close>.
\<close>

definition script_nothing_to_clear :: "reply list" where
  "script_nothing_to_clear =
     [Returns, Returns, Response (Some 200), Text (ustr ''Robot Check''),
      Fails PlaywrightTimeoutError,
      Text (ustr ''product''), Text (ustr ''Robot Check''),
      Says False, Says False,
      Returns] @ script_success"

text \<open>
  \<open>script_continue_then_clear\<close>, for the recovery loop alone: the page read first is the
  CAPTCHA page, the continue button is visible and the click goes through; the page read
  in the second round is the product page.
\<close>

definition script_continue_then_clear :: "reply list" where
  "script_continue_then_clear =
     [Text (ustr ''captcha''), Text (ustr ''Amazon.fr''),
      Says True, Returns, Returns,
      Returns,
      Text (ustr ''product''), Text (ustr ''Amazon.fr'')]"

text \<open>
  \<open>script_timeout_close_fails\<close>: the navigation times out, and closing the context in the
  handler raises.  \<open>script_timeout_then_success\<close>: the navigation of the first attempt
  times out, the handler closes the context, and the second attempt is \<open>script_success\<close>.
\<close>

definition script_timeout_close_fails :: "reply list" where
  "script_timeout_close_fails =
     [Returns, Returns, Fails PlaywrightTimeoutError, Fails PlaywrightError]"

definition script_timeout_then_success :: "reply list" where
  "script_timeout_then_success =
     [Returns, Returns, Fails PlaywrightTimeoutError, Returns] @ script_success"

text \<open>
  \<open>script_extracted_close_fails\<close>: the first attempt is \<open>script_success\<close> up to the log
  line of success, but closing the context raises; the handler's close goes through, and
  the browser is gone for the two attempts left.
\<close>

definition script_extracted_close_fails :: "reply list" where
  "script_extracted_close_fails =
     [Returns, Returns, Response (Some 200), Text (ustr ''Amazon.fr''),
      Fails PlaywrightTimeoutError,
      Text (ustr ''product''), Text (ustr ''Amazon.fr''),
      Text (ustr ''product''), Fails PlaywrightError,
      Returns]"

text \<open>
  \<open>script_solved_in_second_round\<close>, for the recovery loop alone: the page read first is the
  CAPTCHA page, the continue button is visible and the click goes through; the page read
  in the second round is the CAPTCHA page again, now with its image visible and no
  continue button; the solver reads the image, the solution is submitted, and the page
  that \<^verbatim>\<open>handle_blocking_page\<close> reads after the submission is the product page.
\<close>

definition script_solved_in_second_round :: "reply list" where
  "script_solved_in_second_round =
     [Text (ustr ''captcha''), Text (ustr ''Amazon.fr''),
      Says True, Returns, Returns,
      Returns,
      Text (ustr ''captcha''), Text (ustr ''Amazon.fr''),
      Says False, Says True, Src (Some (ustr ''https://images.example/captcha/abc.jpg'')),
      Text (ustr ''KRJNBY''), Returns, Returns,
      Returns, Text (ustr ''product''), Text (ustr ''Amazon.fr''),
      Returns]"
section \<open>Classification with its library calls made explicit\<close>

text \<open>
  The library calls of \<^verbatim>\<open>is_page_blocked\<close> as operations that may read and change the
  worker's state and may raise: \<open>re_search p t\<close> for \<^verbatim>\<open>p.search(t)\<close> being a match,
  \<open>bs_parse html\<close> for \<^verbatim>\<open>BeautifulSoup(html, "html.parser")\<close>, and
  \<open>bs_find soup name attr p\<close> for \<^verbatim>\<open>soup.find(name, attrs={attr: re.compile(p, re.IGNORECASE)})\<close>
  finding a tag.
\<close>

record ('w, 'e) pycalls =
  re_search :: "pystr list \<Rightarrow> pystr \<Rightarrow> ('w, bool) prog"
  bs_parse :: "pystr \<Rightarrow> ('w, 'e) prog"
  bs_find :: "'e \<Rightarrow> pystr \<Rightarrow> pystr \<Rightarrow> pystr list \<Rightarrow> ('w, bool) prog"

text \<open>
  \<^verbatim>\<open>is_page_blocked\<close>, lines 151 to 159, statement by statement over these calls: the
  function itself awaits nothing, logs nothing, and reads and assigns local names only.
\<close>

definition is_page_blocked_calls :: "('w, 'e) pycalls \<Rightarrow> pystr \<Rightarrow> pystr \<Rightarrow> ('w, bool) prog" where
  "is_page_blocked_calls L html page_title =
     bnd (re_search L CAPTCHA_RE page_title) (\<lambda>matched.
     if matched then ret True
     else
     bnd (bs_parse L html) (\<lambda>soup.
     bnd (bs_find L soup (ustr ''form'') (ustr ''action'') [ustr ''validateCaptcha'']) (\<lambda>form.
     if form then ret True
     else
     bnd (bs_find L soup (ustr ''img'') (ustr ''src'') [ustr ''/captcha/'']) (\<lambda>img.
     if img then ret True
     else ret False))))"

text \<open>
  The library as the runtime tables \<open>U\<close> and the parser \<open>B\<close> give it: every call returns
  its value and leaves the state alone.
\<close>

definition pure_calls :: "pylib \<Rightarrow> 'e bs4 \<Rightarrow> ('w, 'e) pycalls" where
  "pure_calls U B =
     \<lparr>re_search = (\<lambda>p t. ret (re_search_ignorecase U p t)),
      bs_parse = (\<lambda>html. ret (BeautifulSoup B html)),
      bs_find = (\<lambda>soup name attr p. ret (soup_find U B soup name attr p))\<rparr>"

section \<open>Vocabulary for the proofs\<close>

text \<open>\<open>emits Q m\<close>: whatever \<open>m\<close> does, it only adds events, and each of them satisfies \<open>Q\<close>.\<close>

definition emits :: "(event \<Rightarrow> bool) \<Rightarrow> ('w, 'a) prog \<Rightarrow> bool" where
  "emits Q m = (\<forall>s r s'. m s = (r, s') \<longrightarrow> (\<exists>evs. trace s' = trace s @ evs \<and> list_all Q evs))"

text \<open>\<open>yields R m\<close>: when \<open>m\<close> returns a value, the value and the final state satisfy \<open>R\<close>.\<close>

definition yields :: "('a \<Rightarrow> 'w state \<Rightarrow> bool) \<Rightarrow> ('w, 'a) prog \<Rightarrow> bool" where
  "yields R m = (\<forall>s x s'. m s = (Inr x, s') \<longrightarrow> R x s')"

text \<open>\<open>noraise m\<close>: \<open>m\<close> always returns a value.\<close>

definition noraise :: "('w, 'a) prog \<Rightarrow> bool" where
  "noraise m = (\<forall>s. \<exists>x s'. m s = (Inr x, s'))"

text \<open>
  The events of the body of an attempt: calls, and the log lines other than the two of
  the handler.
\<close>

fun inner_event :: "event \<Rightarrow> bool" where
  "inner_event (Returned c) = True"
| "inner_event (Raised c) = True"
| "inner_event (Log l) = (case l of AttemptFailed n \<Rightarrow> False | AllFailed \<Rightarrow> False | _ \<Rightarrow> True)"
| "inner_event SleepJitter = False"
| "inner_event SleepBackoff = False"
| "inner_event Acquire = False"
| "inner_event Release = False"

text \<open>The number of rounds of a trace in which the page was found blocked (line 238).\<close>

definition blocked_rounds :: "event list \<Rightarrow> nat" where
  "blocked_rounds evs = length (filter (\<lambda>ev. ev = Log BlockedDetected) evs)"

text \<open>The events between the start of an attempt and the next sleep.\<close>

definition quiet :: "event \<Rightarrow> bool" where
  "quiet ev = (ev \<noteq> Acquire \<and> ev \<noteq> SleepJitter \<and> ev \<noteq> SleepBackoff)"

text \<open>
  The shape of a result built from an extraction: a non-empty availability text, a
  rating that is a float or the no-rating sentinel, a review count that is an integer or
  the no-rating sentinel.
\<close>

definition extracted :: "result \<Rightarrow> bool" where
  "extracted r =
     (\<exists>a st rv.
        r = [(''availability'', PStr a), (''average_stars'', st), (''total_reviews'', rv)] \<and>
        a \<noteq> [] \<and>
        (st = PStr aucune_note \<or> (\<exists>f. st = PFloat f)) \<and>
        (rv = PStr aucune_note \<or> (\<exists>n. rv = PInt n)))"

text \<open>
  How a returned result \<open>r\<close> goes with the last events of the state \<open>s\<close> it is returned in:
  the \<open>Error\<close> record after the log line of exhaustion, the \<open>Page n'existe pas\<close> record
  after a not-found classification whose \<^verbatim>\<open>close()\<close> returned, an extraction after the log
  line of success and a \<^verbatim>\<open>close()\<close> that returned.
\<close>

definition concluded :: "result \<Rightarrow> 'w state \<Rightarrow> bool" where
  "concluded r s =
     ((r = sentinel_result error_sentinel \<and> suffix [Log AllFailed] (trace s)) \<or>
      (r = sentinel_result page_nexiste_pas \<and>
       (suffix [Log HttpStatus, Returned Close, Release] (trace s) \<or>
        suffix [Log ErrorTitle, Returned Close, Release] (trace s))) \<or>
      (extracted r \<and> suffix [Log Success, Returned Close, Release] (trace s)))"

text \<open>
  Whether every \<open>Acquire\<close> of a trace comes directly after a sleep, \<open>prev\<close> being the
  event before the trace.
\<close>

fun attempt_after_sleep :: "event \<Rightarrow> event list \<Rightarrow> bool" where
  "attempt_after_sleep prev [] = True"
| "attempt_after_sleep prev (ev # evs) =
     ((if ev = Acquire then prev = SleepJitter \<or> prev = SleepBackoff else True) \<and>
      attempt_after_sleep ev evs)"

text \<open>
  Whether a worker's trace keeps the discipline of the semaphore, \<open>held\<close> telling
  whether the worker holds a permit before the trace: a permit is taken only when none is
  held and given back only when one is held, \<^verbatim>\<open>new_context\<close> is called only while one is
  held, and none is held at the end.
\<close>

fun permit_discipline :: "bool \<Rightarrow> event list \<Rightarrow> bool" where
  "permit_discipline held [] = (\<not> held)"
| "permit_discipline held (ev # evs) =
     (if ev = Acquire then \<not> held \<and> permit_discipline True evs
      else if ev = Release then held \<and> permit_discipline False evs
      else if ev = Returned NewContext \<or> ev = Raised NewContext
      then held \<and> permit_discipline held evs
      else permit_discipline held evs)"

section \<open>Proofs: chunking and aggregation\<close>

lemma ceil_step:
  fixes i stop step :: nat
  assumes "0 < step" "i < stop"
  shows "(stop - i + step - 1) div step = Suc ((stop - (i + step) + step - 1) div step)"
proof (cases "step \<le> stop - i")
  case True
  then obtain d where d: "stop = i + step + d"
    using assms by (metis add.assoc add.commute le_add_diff_inverse less_imp_le_nat)
  obtain s where s: "step = Suc s" using assms(1) by (cases step) auto
  have l: "stop - i + step - 1 = (d + s) + step" unfolding d s by simp
  have r: "stop - (i + step) + step - 1 = d + s" unfolding d s by simp
  have "(d + s + step) div step = Suc ((d + s) div step)"
    using assms(1) div_add_self2[of step "d + s"] by simp
  then show ?thesis unfolding l r .
next
  case False
  then have z: "stop - (i + step) = 0" by arith
  from less_imp_Suc_add[OF assms(2)] obtain m where m: "stop = Suc (i + m)" by blast
  have ms: "m < step" using False unfolding m by arith
  have l: "stop - i + step - 1 = m + step" unfolding m using assms(1) by arith
  have "(m + step) div step = Suc (m div step)"
    using assms(1) div_add_self2[of step m] by simp
  moreover have "m div step = 0" using ms by simp
  moreover have "(step - 1) div step = 0" using assms(1) by simp
  ultimately show ?thesis unfolding l z by simp
qed

lemma py_range_eq:
  "0 < c \<Longrightarrow> py_range i n c = map (\<lambda>k. i + k * c) [0..<(n - i + c - 1) div c]"
proof (induction i n c rule: py_range.induct)
  case (1 i stop step)
  show ?case
  proof (cases "i < stop")
    case False
    then have "(stop - i + step - 1) div step = 0" using 1(2) by simp
    then show ?thesis using False by (simp add: py_range.simps)
  next
    case True
    let ?m = "(stop - (i + step) + step - 1) div step"
    have "py_range i stop step = i # py_range (i + step) stop step"
      using True 1(2) by (subst py_range.simps) simp
    also have "\<dots> = i # map (\<lambda>k. (i + step) + k * step) [0..<?m]"
      using 1(1) True 1(2) by simp
    also have "\<dots> = i # map ((\<lambda>k. i + k * step) \<circ> Suc) [0..<?m]"
      by (simp add: comp_def add.assoc)
    also have "\<dots> = i # map (\<lambda>k. i + k * step) [Suc 0..<Suc ?m]"
      by (simp only: map_map [symmetric] map_Suc_upt)
    also have "\<dots> = map (\<lambda>k. i + k * step) [0..<Suc ?m]"
      by (simp add: upt_conv_Cons del: upt_Suc)
    finally show ?thesis using ceil_step[OF 1(2) True] by simp
  qed
qed

lemma length_py_range: "0 < c \<Longrightarrow> length (py_range 0 n c) = (n + c - 1) div c"
  by (simp add: py_range_eq)

lemma those_map_Some: "those (map (\<lambda>i. Some (f i)) xs) = Some (map f xs)"
  by (induction xs) auto

lemma gather_slots_raise:
  "\<exists>i\<in>set order. i < length tasks \<and> isl ((tasks ! i) i) \<Longrightarrow>
   \<exists>e i. i \<in> set order \<and> i < length tasks \<and> (tasks ! i) i = Inl e \<and>
         gather_slots tasks order slots = Some (Inl e)"
proof (induction order arbitrary: slots)
  case Nil
  then show ?case by simp
next
  case (Cons a order)
  show ?case
  proof (cases "a < length tasks")
    case False
    then have "\<exists>i\<in>set order. i < length tasks \<and> isl ((tasks ! i) i)" using Cons.prems by auto
    from Cons.IH[OF this, of slots] False show ?thesis by auto
  next
    case True
    show ?thesis
    proof (cases "(tasks ! a) a")
      case (Inl e)
      then show ?thesis using True by auto
    next
      case (Inr v)
      then have "\<exists>i\<in>set order. i < length tasks \<and> isl ((tasks ! i) i)" using Cons.prems by auto
      from Cons.IH[OF this, of "slots[a := Some v]"] True Inr show ?thesis by auto
    qed
  qed
qed

lemma gather_slots_return:
  "\<forall>i\<in>set order. i < length tasks \<longrightarrow> (tasks ! i) i = Inr (v i) \<Longrightarrow>
   length slots = length tasks \<Longrightarrow>
   gather_slots tasks order slots
   = (case those (map (\<lambda>i. if i \<in> set order then Some (v i) else slots ! i) [0..<length tasks]) of
        None \<Rightarrow> None | Some results \<Rightarrow> Some (Inr results))"
proof (induction order arbitrary: slots)
  case Nil
  then show ?case using map_nth[of slots] by simp
next
  case (Cons a order)
  show ?case
  proof (cases "a < length tasks")
    case False
    have m: "map (\<lambda>i. if i \<in> set (a # order) then Some (v i) else slots ! i) [0..<length tasks]
        = map (\<lambda>i. if i \<in> set order then Some (v i) else slots ! i) [0..<length tasks]"
      using False by (intro map_cong refl) auto
    have "gather_slots tasks (a # order) slots = gather_slots tasks order slots"
      using False by simp
    also have "\<dots> = (case those (map (\<lambda>i. if i \<in> set order then Some (v i) else slots ! i)
                                    [0..<length tasks]) of
                        None \<Rightarrow> None | Some results \<Rightarrow> Some (Inr results))"
      using Cons.IH[of slots] Cons.prems by simp
    finally show ?thesis unfolding m .
  next
    case True
    have r: "(tasks ! a) a = Inr (v a)" using Cons.prems True by simp
    have len: "length (slots[a := Some (v a)]) = length tasks" using Cons.prems by simp
    have m: "map (\<lambda>i. if i \<in> set (a # order) then Some (v i) else slots ! i) [0..<length tasks]
        = map (\<lambda>i. if i \<in> set order then Some (v i) else slots[a := Some (v a)] ! i) [0..<length tasks]"
      using Cons.prems by (intro map_cong refl) (simp add: nth_list_update)
    have "gather_slots tasks (a # order) slots = gather_slots tasks order (slots[a := Some (v a)])"
      using True r by simp
    also have "\<dots> = (case those (map (\<lambda>i. if i \<in> set order then Some (v i)
                                          else slots[a := Some (v a)] ! i) [0..<length tasks]) of
                        None \<Rightarrow> None | Some results \<Rightarrow> Some (Inr results))"
      using Cons.IH[OF _ len] Cons.prems by simp
    finally show ?thesis unfolding m .
  qed
qed

lemma gather_all_return:
  assumes "set order = {0..<length tasks}"
    and "\<forall>i<length tasks. (tasks ! i) i = Inr (v i)"
  shows "gather tasks order = Some (Inr (map v [0..<length tasks]))"
proof -
  have m: "map (\<lambda>i. if i \<in> set order then Some (v i) else replicate (length tasks) None ! i) [0..<length tasks]
        = map (\<lambda>i. Some (v i)) [0..<length tasks]"
    using assms by (intro map_cong refl) auto
  have "\<forall>i\<in>set order. i < length tasks \<longrightarrow> (tasks ! i) i = Inr (v i)" using assms by simp
  from gather_slots_return[OF this, of "replicate (length tasks) None"]
  show ?thesis unfolding gather_def m those_map_Some by simp
qed

lemma gather_some_raise:
  assumes "set order = {0..<length tasks}"
    and "\<exists>i<length tasks. isl ((tasks ! i) i)"
  shows "\<exists>e i. i < length tasks \<and> (tasks ! i) i = Inl e \<and> gather tasks order = Some (Inl e)"
proof -
  have "\<exists>i\<in>set order. i < length tasks \<and> isl ((tasks ! i) i)" using assms by auto
  from gather_slots_raise[OF this, of "replicate (length tasks) None"]
  show ?thesis unfolding gather_def by blast
qed

lemma process_chunk_cases:
  assumes "set order = {0..<length ch}"
  shows "((\<forall>i<length ch. \<not> isl (scr i (link (ch ! i)))) \<and>
          process_chunk link scr order ch
            = Some (Inr (map (\<lambda>i. (ch ! i, projr (scr i (link (ch ! i))))) [0..<length ch])))
       \<or> (\<exists>e i. i < length ch \<and> scr i (link (ch ! i)) = Inl e \<and>
                 process_chunk link scr order ch = Some (Inl e))"
proof -
  let ?tasks = "map (\<lambda>url. (\<lambda>i. scr i url)) (map link ch)"
  have so: "set order = {0..<length ?tasks}" using assms by simp
  have t: "\<And>i. i < length ch \<Longrightarrow> (?tasks ! i) i = scr i (link (ch ! i))" by simp
  show ?thesis
  proof (cases "\<exists>i<length ch. isl (scr i (link (ch ! i)))")
    case True
    then have "\<exists>i<length ?tasks. isl ((?tasks ! i) i)" using t by auto
    from gather_some_raise[OF so this] obtain e i where
      "i < length ch" "(?tasks ! i) i = Inl e" "gather ?tasks order = Some (Inl e)" by auto
    then show ?thesis unfolding process_chunk_def Let_def using t by auto
  next
    case False
    then have "\<forall>i<length ?tasks. (?tasks ! i) i = Inr (projr (scr i (link (ch ! i))))"
      by auto
    from gather_all_return[OF so this]
    have g: "gather ?tasks order = Some (Inr (map (\<lambda>i. projr (scr i (link (ch ! i)))) [0..<length ch]))"
      by simp
    have z: "zip ch (map (\<lambda>i. projr (scr i (link (ch ! i)))) [0..<length ch])
        = map (\<lambda>i. (ch ! i, projr (scr i (link (ch ! i))))) [0..<length ch]"
      by (intro nth_equalityI) simp_all
    show ?thesis unfolding process_chunk_def Let_def g using False by (simp add: z)
  qed
qed


lemma process_chunks_from:
  assumes c: "0 < c"
  shows "i0 = j0 * c \<Longrightarrow>
     (\<And>j. j * c < length df \<Longrightarrow> set (sched (Suc j)) = {0..<min c (length df - j * c)}) \<Longrightarrow>
     ((\<forall>k. i0 \<le> k \<and> k < length df \<longrightarrow> \<not> isl (scrape (Suc (k div c)) (k mod c) (link (df ! k)))) \<and>
      (\<exists>R. process_chunks link scrape sched (Suc j0)
              (map (\<lambda>i. iloc df i (i + c)) (py_range i0 (length df) c)) = Some (Inr R) \<and>
           concat R = map (\<lambda>k. (df ! k, projr (scrape (Suc (k div c)) (k mod c) (link (df ! k)))))
                        [i0..<length df] \<and>
           (R = [] \<longleftrightarrow> \<not> i0 < length df)))
     \<or> (\<exists>e k. i0 \<le> k \<and> k < length df \<and> scrape (Suc (k div c)) (k mod c) (link (df ! k)) = Inl e \<and>
            process_chunks link scrape sched (Suc j0)
              (map (\<lambda>i. iloc df i (i + c)) (py_range i0 (length df) c)) = Some (Inl e))"
  using c
proof (induction i0 "length df" c arbitrary: j0 rule: py_range.induct)
  case (1 i step)
  show ?case
  proof (cases "i < length df")
    case False
    then have "py_range i (length df) step = []" by (simp add: py_range.simps)
    moreover have "\<forall>k. i \<le> k \<and> k < length df \<longrightarrow>
        \<not> isl (scrape (Suc (k div step)) (k mod step) (link (df ! k)))" using False by auto
    ultimately show ?thesis using False by simp
  next
    case True
    let ?N = "length df"
    let ?ch = "iloc df i (i + step)"
    let ?len = "min step (?N - i)"
    let ?W = "\<lambda>k. scrape (Suc (k div step)) (k mod step) (link (df ! k))"
    let ?f = "\<lambda>k. (df ! k, projr (?W k))"
    let ?rest = "map (\<lambda>i. iloc df i (i + step)) (py_range (i + step) ?N step)"
    have r: "py_range i ?N step = i # py_range (i + step) ?N step"
      using True 1(4) by (subst py_range.simps) simp
    have len: "length ?ch = ?len" by (simp add: iloc_def)
    have so: "set (sched (Suc j0)) = {0..<length ?ch}"
      using 1(3)[of j0] True 1(2) len by simp
    have pos: "\<And>a. a < ?len \<Longrightarrow>
                 ?ch ! a = df ! (i + a) \<and> (i + a) div step = j0 \<and> (i + a) mod step = a"
    proof -
      fix a assume a: "a < ?len"
      then have a1: "a < step" and a2: "i + a < ?N" by arith+
      have nth: "?ch ! a = df ! (i + a)" using a1 a2 True by (simp add: iloc_def)
      have d: "(i + a) div step = j0" using a1 1(2) by simp
      have m: "(i + a) mod step = a" using a1 1(2) by simp
      show "?ch ! a = df ! (i + a) \<and> (i + a) div step = j0 \<and> (i + a) mod step = a"
        using nth d m by simp
    qed
    from process_chunk_cases[OF so, of "scrape (Suc j0)" link]
    consider
      (ret) "\<forall>a<?len. \<not> isl (scrape (Suc j0) a (link (?ch ! a)))"
            "process_chunk link (scrape (Suc j0)) (sched (Suc j0)) ?ch
               = Some (Inr (map (\<lambda>a. (?ch ! a, projr (scrape (Suc j0) a (link (?ch ! a))))) [0..<?len]))"
    | (exc) e a where "a < ?len" "scrape (Suc j0) a (link (?ch ! a)) = Inl e"
            "process_chunk link (scrape (Suc j0)) (sched (Suc j0)) ?ch = Some (Inl e)"
      unfolding len by blast
    then show ?thesis
    proof cases
      case exc
      from pos[OF exc(1)] have "?W (i + a) = scrape (Suc j0) a (link (?ch ! a))" by simp
      then have w: "?W (i + a) = Inl e" using exc(2) by simp
      have k: "i \<le> i + a \<and> i + a < ?N" using exc(1) by arith
      have "process_chunks link scrape sched (Suc j0)
              (map (\<lambda>i. iloc df i (i + step)) (py_range i ?N step)) = Some (Inl e)"
        unfolding r using exc(3) by simp
      then show ?thesis using w k by blast
    next
      case ret
      have el: "map (\<lambda>a. (?ch ! a, projr (scrape (Suc j0) a (link (?ch ! a))))) [0..<?len]
              = map ?f [i..<i + ?len]"
      proof (intro nth_equalityI)
        show "length (map (\<lambda>a. (?ch ! a, projr (scrape (Suc j0) a (link (?ch ! a))))) [0..<?len])
              = length (map ?f [i..<i + ?len])" by simp
      next
        fix a assume "a < length (map (\<lambda>a. (?ch ! a, projr (scrape (Suc j0) a (link (?ch ! a))))) [0..<?len])"
        then have a: "a < ?len" by simp
        show "map (\<lambda>a. (?ch ! a, projr (scrape (Suc j0) a (link (?ch ! a))))) [0..<?len] ! a
              = map ?f [i..<i + ?len] ! a"
          using a pos[OF a] by simp
      qed
      have pc: "process_chunk link (scrape (Suc j0)) (sched (Suc j0)) ?ch = Some (Inr (map ?f [i..<i + ?len]))"
        using ret(2) el by simp
      have head: "\<forall>k. i \<le> k \<and> k < i + ?len \<longrightarrow> \<not> isl (?W k)"
      proof (intro allI impI)
        fix k assume k: "i \<le> k \<and> k < i + ?len"
        then obtain a where a: "k = i + a" using le_Suc_ex by blast
        then have al: "a < ?len" using k by arith
        from pos[OF al] have e: "?W (i + a) = scrape (Suc j0) a (link (?ch ! a))" by simp
        show "\<not> isl (?W k)" unfolding a e using ret(1) al by blast
      qed
      have tl: "[i + step..<?N] = [i + ?len..<?N]"
        by (cases "step \<le> ?N - i") (simp_all add: min_def)
      have sp: "[i..<?N] = [i..<i + ?len] @ [i + ?len..<?N]"
      proof -
        have le: "i + ?len \<le> ?N" using True by arith
        then obtain k where k: "?N = (i + ?len) + k" using le_Suc_ex by blast
        have "[i..<(i + ?len) + k] = [i..<i + ?len] @ [i + ?len..<(i + ?len) + k]"
          by (rule upt_add_eq_append) simp
        then show ?thesis using k by metis
      qed
      have nx: "i + step = Suc j0 * step" using 1(2) by simp
      from 1(1)[OF _ nx 1(3) 1(4)] True 1(4)
      consider
        (ret2) R where "\<forall>k. i + step \<le> k \<and> k < ?N \<longrightarrow> \<not> isl (?W k)"
               "process_chunks link scrape sched (Suc (Suc j0)) ?rest = Some (Inr R)"
               "concat R = map ?f [i + step..<?N]"
      | (exc2) e k where "i + step \<le> k" "k < ?N" "?W k = Inl e"
               "process_chunks link scrape sched (Suc (Suc j0)) ?rest = Some (Inl e)"
        by blast
      then show ?thesis
      proof cases
        case exc2
        have "process_chunks link scrape sched (Suc j0)
                (map (\<lambda>i. iloc df i (i + step)) (py_range i ?N step)) = Some (Inl e)"
          unfolding r using pc exc2(4) by simp
        moreover have "i \<le> k" using exc2(1) by arith
        ultimately show ?thesis using exc2(2,3) by blast
      next
        case ret2
        have all: "\<forall>k. i \<le> k \<and> k < ?N \<longrightarrow> \<not> isl (?W k)"
        proof (intro allI impI)
          fix k assume k: "i \<le> k \<and> k < ?N"
          show "\<not> isl (?W k)"
          proof (cases "k < i + ?len")
            case True
            then show ?thesis using head k by blast
          next
            case False
            then have "i + step \<le> k" using k by arith
            then show ?thesis using ret2(1) k by blast
          qed
        qed
        have p: "process_chunks link scrape sched (Suc j0)
                (map (\<lambda>i. iloc df i (i + step)) (py_range i ?N step))
              = Some (Inr (map ?f [i..<i + ?len] # R))"
          unfolding r using pc ret2(2) by simp
        have cc: "concat (map ?f [i..<i + ?len] # R) = map ?f [i..<?N]"
          using ret2(3) tl sp by (simp del: upt_Suc)
        have ne: "(map ?f [i..<i + ?len] # R = []) \<longleftrightarrow> \<not> i < ?N" using True by simp
        show ?thesis using all p cc ne by blast
      qed
    qed
  qed
qed


lemma concat_chunks_from:
  "0 < c \<Longrightarrow> concat (map (\<lambda>i. iloc df i (i + c)) (py_range i (length df) c)) = drop i df"
proof (induction i "length df" c rule: py_range.induct)
  case (1 i step)
  show ?case
  proof (cases "i < length df")
    case False
    then show ?thesis by (simp add: py_range.simps)
  next
    case True
    have r: "py_range i (length df) step = i # py_range (i + step) (length df) step"
      using True 1(2) by (subst py_range.simps) simp
    have ih: "concat (map (\<lambda>i. iloc df i (i + step)) (py_range (i + step) (length df) step))
              = drop (i + step) df"
      using 1(1) True 1(2) by simp
    have e: "take step (drop i df) @ drop (i + step) df = drop i df"
      using append_take_drop_id[of step "drop i df"] by (simp add: add.commute)
    show ?thesis unfolding r using ih e by (simp add: iloc_def)
  qed
qed

text \<open>
  Claim C1.  For a frame of \<open>N\<close> rows and a positive chunk size \<open>C\<close>, \<open>chunker\<close> returns
  \<open>ceil(N/C)\<close> chunks, chunk \<open>j\<close> being rows \<open>j*C\<close> up to \<open>j*C + C\<close> of the input, so the
  chunks are contiguous, disjoint and in order and their concatenation is the input.
  Let every worker of a chunk finish, in whatever order.  Then \<open>main_async\<close> always returns
  or raises, and:
  \<^item> a frame it writes holds the input rows in input order, row \<open>k\<close> carrying the result that
    the worker started for it (chunk \<open>k div C + 1\<close>, position \<open>k mod C\<close>) returned, and is
    written only for a non-empty input all of whose workers returned;
  \<^item> it does write that frame when the input is not empty, every worker returns, and the
    browser launch, the browser close and the file write go through;
  \<^item> when some worker raises, an exception leaves \<open>main_async\<close> and no frame is written;
  \<^item> for an empty input no frame is written.
\<close>

theorem chunker_partitions_in_order:
  fixes df :: "'row list" and sz :: int
  assumes pos: "0 < sz"
    and sched: "\<And>j. j * nat sz < length df \<Longrightarrow>
                  set (sched (Suc j)) = {0..<min (nat sz) (length df - j * nat sz)}"
  shows "\<exists>chunks. chunker df sz = Inr chunks \<and>
           length chunks = (length df + nat sz - 1) div nat sz \<and>
           chunks = map (\<lambda>j. take (nat sz) (drop (j * nat sz) df)) [0..<length chunks] \<and>
           concat chunks = df \<and>
           main_async link scrape sched H sz df \<noteq> None \<and>
           (\<forall>out. main_async link scrape sched H sz df = Some (Inr (Some out)) \<longrightarrow>
              df \<noteq> [] \<and> map fst out = df \<and>
              (\<forall>k<length df. scrape (Suc (k div nat sz)) (k mod nat sz) (link (df ! k))
                               = Inr (snd (out ! k)))) \<and>
           (df \<noteq> [] \<and> launch H = None \<and> browser_close H = None \<and> (\<forall>full_df. to_csv H full_df = None) \<and>
            (\<forall>k<length df. scrape (Suc (k div nat sz)) (k mod nat sz) (link (df ! k)) = Inr (res k)) \<longrightarrow>
              main_async link scrape sched H sz df
                = Some (Inr (Some (map (\<lambda>k. (df ! k, res k)) [0..<length df])))) \<and>
           ((\<exists>k<length df. isl (scrape (Suc (k div nat sz)) (k mod nat sz) (link (df ! k)))) \<longrightarrow>
              (\<exists>e. main_async link scrape sched H sz df = Some (Inl e))) \<and>
           (df = [] \<longrightarrow> (\<forall>out. main_async link scrape sched H sz df \<noteq> Some (Inr (Some out))))"
proof -
  let ?c = "nat sz"
  let ?N = "length df"
  let ?chunks = "map (\<lambda>i. iloc df i (i + ?c)) (py_range 0 ?N ?c)"
  let ?W = "\<lambda>k. scrape (Suc (k div ?c)) (k mod ?c) (link (df ! k))"
  let ?M = "main_async link scrape sched H sz df"
  have c: "0 < ?c" using pos by simp
  have ch: "chunker df sz = Inr ?chunks" using pos by (simp add: chunker_def)
  have len: "length ?chunks = (?N + ?c - 1) div ?c" using c by (simp add: length_py_range)
  have shape: "?chunks = map (\<lambda>j. take ?c (drop (j * ?c) df)) [0..<length ?chunks]"
    unfolding len using c by (simp add: py_range_eq iloc_def comp_def)
  have cc: "concat ?chunks = df" using concat_chunks_from[OF c, of df 0] by simp
  have m: "?M = (case launch H of
             Some e \<Rightarrow> Some (Inl e)
           | None \<Rightarrow>
               (case process_chunks link scrape sched 1 ?chunks of
                  None \<Rightarrow> None
                | Some (Inl e) \<Rightarrow> Some (Inl e)
                | Some (Inr all_results) \<Rightarrow>
                    (case browser_close H of
                       Some e \<Rightarrow> Some (Inl e)
                     | None \<Rightarrow>
                         if all_results \<noteq> []
                         then (let full_df = concat all_results
                               in case to_csv H full_df of
                                    Some e \<Rightarrow> Some (Inl e)
                                  | None \<Rightarrow> Some (Inr (Some full_df)))
                         else Some (Inr None))))"
    unfolding main_async_def ch by simp
  from process_chunks_from[OF c, of 0 0 df sched scrape link] sched
  consider
    (ret) R where "\<forall>k<?N. \<not> isl (?W k)"
        "process_chunks link scrape sched 1 ?chunks = Some (Inr R)"
        "concat R = map (\<lambda>k. (df ! k, projr (?W k))) [0..<?N]"
        "R = [] \<longleftrightarrow> df = []"
  | (exc) e k where "k < ?N" "?W k = Inl e"
        "process_chunks link scrape sched 1 ?chunks = Some (Inl e)"
    by auto
  then have "?M \<noteq> None \<and>
           (\<forall>out. ?M = Some (Inr (Some out)) \<longrightarrow>
              df \<noteq> [] \<and> map fst out = df \<and> (\<forall>k<?N. ?W k = Inr (snd (out ! k)))) \<and>
           (df \<noteq> [] \<and> launch H = None \<and> browser_close H = None \<and> (\<forall>full_df. to_csv H full_df = None) \<and>
            (\<forall>k<?N. ?W k = Inr (res k)) \<longrightarrow>
              ?M = Some (Inr (Some (map (\<lambda>k. (df ! k, res k)) [0..<?N])))) \<and>
           ((\<exists>k<?N. isl (?W k)) \<longrightarrow> (\<exists>e. ?M = Some (Inl e))) \<and>
           (df = [] \<longrightarrow> (\<forall>out. ?M \<noteq> Some (Inr (Some out))))"
  proof cases
    case exc
    have me: "\<exists>e. ?M = Some (Inl e)" unfolding m exc(3) by (simp split: option.splits)
    have nr: "\<not> (\<forall>k<?N. ?W k = Inr (res k))" using exc(1,2) by auto
    show ?thesis using me nr by auto
  next
    case ret
    let ?out = "map (\<lambda>k. (df ! k, projr (?W k))) [0..<?N]"
    have mr: "?M = (case launch H of
             Some e \<Rightarrow> Some (Inl e)
           | None \<Rightarrow>
                    (case browser_close H of
                       Some e \<Rightarrow> Some (Inl e)
                     | None \<Rightarrow>
                         if df \<noteq> []
                         then (case to_csv H ?out of
                                    Some e \<Rightarrow> Some (Inl e)
                                  | None \<Rightarrow> Some (Inr (Some ?out)))
                         else Some (Inr None)))"
      unfolding m ret(2) using ret(3,4) by (auto simp: Let_def split: option.splits)
    have fst: "map fst ?out = df" by (intro nth_equalityI) simp_all
    have snd: "\<forall>k<?N. ?W k = Inr (snd (?out ! k))" using ret(1) by simp
    have outs: "\<forall>out. ?M = Some (Inr (Some out)) \<longrightarrow> df \<noteq> [] \<and> out = ?out"
      unfolding mr by (auto split: option.splits if_splits)
    have nn: "?M \<noteq> None" unfolding mr by (simp split: option.splits)
    have lucky: "df \<noteq> [] \<and> launch H = None \<and> browser_close H = None \<and> (\<forall>full_df. to_csv H full_df = None) \<and>
            (\<forall>k<?N. ?W k = Inr (res k)) \<longrightarrow>
              ?M = Some (Inr (Some (map (\<lambda>k. (df ! k, res k)) [0..<?N])))"
    proof (intro impI)
      assume a: "df \<noteq> [] \<and> launch H = None \<and> browser_close H = None \<and> (\<forall>full_df. to_csv H full_df = None) \<and>
            (\<forall>k<?N. ?W k = Inr (res k))"
      then have "?out = map (\<lambda>k. (df ! k, res k)) [0..<?N]" by (intro map_cong refl) simp
      then show "?M = Some (Inr (Some (map (\<lambda>k. (df ! k, res k)) [0..<?N])))"
        unfolding mr using a by simp
    qed
    have noexc: "\<not> (\<exists>k<?N. isl (?W k))" using ret(1) by blast
    show ?thesis using nn outs fst snd lucky noexc by blast
  qed
  then show ?thesis using ch len shape cc by blast
qed

theorem chunker_partitions_in_order_witness:
  "chunker [ustr ''urlA'', ustr ''urlB'', ustr ''urlC''] 2
     = Inr [[ustr ''urlA'', ustr ''urlB''], [ustr ''urlC'']] \<and>
   main_async (\<lambda>row. row) (\<lambda>idx i url. Inr (idx, i)) (\<lambda>idx. if idx = 1 then [1, 0] else [0])
       \<lparr>launch = None, browser_close = None, to_csv = (\<lambda>full_df. None)\<rparr> 2
       [ustr ''urlA'', ustr ''urlB'', ustr ''urlC'']
     = Some (Inr (Some [(ustr ''urlA'', (1, 0)), (ustr ''urlB'', (1, 1)), (ustr ''urlC'', (2, 0))])) \<and>
   (\<exists>e. main_async (\<lambda>row. row)
           (\<lambda>idx i url. if url = ustr ''urlB'' then Inl PlaywrightError else Inr (idx, i))
           (\<lambda>idx. if idx = 1 then [1, 0] else [0])
           \<lparr>launch = None, browser_close = None, to_csv = (\<lambda>full_df. None)\<rparr> 2
           [ustr ''urlA'', ustr ''urlB'', ustr ''urlC'']
         = Some (Inl e))"
proof -
  let ?df = "[ustr ''urlA'', ustr ''urlB'', ustr ''urlC'']"
  let ?sched = "\<lambda>idx::nat. if idx = 1 then [1, 0] else [0::nat]"
  let ?H = "\<lparr>launch = None, browser_close = None, to_csv = (\<lambda>full_df::(pystr \<times> nat \<times> nat) list. None)\<rparr>"
  let ?bad = "\<lambda>(idx::nat) (i::nat) url. if url = ustr ''urlB'' then Inl PlaywrightError else Inr (idx, i)"
  have s: "\<And>j. j * nat 2 < length ?df \<Longrightarrow>
     set (?sched (Suc j)) = {0..<min (nat 2) (length ?df - j * nat 2)}"
  proof -
    fix j :: nat assume "j * nat 2 < length ?df"
    then have "j = 0 \<or> j = 1" by auto
    then show "set (?sched (Suc j)) = {0..<min (nat 2) (length ?df - j * nat 2)}"
      by auto
  qed
  have p: "(0::int) < 2" by simp
  have u2: "[0..<2] = [0, 1]" by (simp add: upt_rec)
  have u3: "[0..<3] = [0, 1, 2]" by (simp add: upt_rec)
  from chunker_partitions_in_order[OF p s, of "\<lambda>row. row" "\<lambda>idx i url. Inr (idx, i)" ?H
         "\<lambda>k. (Suc (k div nat 2), k mod nat 2)"]
  obtain chunks where a: "chunker ?df 2 = Inr chunks"
    and b: "length chunks = (length ?df + nat 2 - 1) div nat 2"
    and c: "chunks = map (\<lambda>j. take (nat 2) (drop (j * nat 2) ?df)) [0..<length chunks]"
    and m: "main_async (\<lambda>row. row) (\<lambda>idx i url. Inr (idx, i)) ?sched ?H 2 ?df
            = Some (Inr (Some (map (\<lambda>k. (?df ! k, (Suc (k div nat 2), k mod nat 2)))
                          [0..<length ?df])))"
    by auto
  have len: "length chunks = 2" using b by simp
  have c1: "chunks = [[ustr ''urlA'', ustr ''urlB''], [ustr ''urlC'']]"
    using c unfolding len u2 by simp
  have m1: "map (\<lambda>k. (?df ! k, (Suc (k div nat 2), k mod nat 2))) [0..<length ?df]
     = [(ustr ''urlA'', (1, 0)), (ustr ''urlB'', (1, 1)), (ustr ''urlC'', (2, 0))]"
    using u3 by simp
  have w: "\<exists>k<length ?df. isl (?bad (Suc (k div nat 2)) (k mod nat 2) (?df ! k))"
    by (rule exI[of _ 1]) simp
  from chunker_partitions_in_order[OF p s, of "\<lambda>row. row" ?bad ?H] w
  have e: "\<exists>e. main_async (\<lambda>row. row) ?bad ?sched ?H 2 ?df = Some (Inl e)"
    by blast
  show ?thesis using a c1 m m1 e by simp
qed
section \<open>Proofs: the worker's events\<close>

lemmas prog_defs = bnd_def catch_def call_def emit_def ret_def raise_def set_context_def with_sem_def
lemmas worker_defs = scrape_one_def navigate_def after_goto_def attempt_body_def
  handle_cookie_consent_def handle_blocking_page_def extract_and_close_def start_def MAX_RETRIES_def
lemmas script_defs = scripted_def reply_unit_def reply_bool_def reply_text_def reply_response_def reply_src_def

lemma upt_1_4: "[1..<MAX_RETRIES + 1] = [1, 2, 3]"
  by (simp add: MAX_RETRIES_def upt_rec)

lemma upt_0_2: "[0..<2] = [0, Suc 0]"
  by (simp add: upt_rec)


lemma emitsI:
  "(\<And>s r s'. m s = (r, s') \<Longrightarrow> \<exists>evs. trace s' = trace s @ evs \<and> list_all Q evs) \<Longrightarrow> emits Q m"
  by (simp add: emits_def)

lemma emitsD:
  "emits Q m \<Longrightarrow> m s = (r, s') \<Longrightarrow> \<exists>evs. trace s' = trace s @ evs \<and> list_all Q evs"
  by (simp add: emits_def)

lemma emits_ret: "emits Q (ret x)"
  by (simp add: emits_def ret_def)

lemma emits_raise: "emits Q (raise e)"
  by (simp add: emits_def raise_def)

lemma emits_emit: "Q ev \<Longrightarrow> emits Q (emit ev)"
  by (auto simp: emits_def emit_def)

lemma emits_set_context: "emits Q (set_context b)"
  by (auto simp: emits_def set_context_def)

lemma emits_call: "Q (Returned c) \<Longrightarrow> Q (Raised c) \<Longrightarrow> emits Q (call c f)"
  by (auto simp: emits_def call_def split: prod.splits sum.splits)

lemma emits_bnd:
  assumes "emits Q m" and "\<And>x. emits Q (k x)"
  shows "emits Q (bnd m k)"
proof (rule emitsI)
  fix s r s' assume a: "bnd m k s = (r, s')"
  obtain r1 s1 where m: "m s = (r1, s1)" by (cases "m s")
  from emitsD[OF assms(1) m] obtain evs1 where e1: "trace s1 = trace s @ evs1" "list_all Q evs1" by blast
  show "\<exists>evs. trace s' = trace s @ evs \<and> list_all Q evs"
  proof (cases r1)
    case (Inl e)
    then show ?thesis using a m e1 by (auto simp: bnd_def)
  next
    case (Inr x)
    then have "k x s1 = (r, s')" using a m by (simp add: bnd_def)
    from emitsD[OF assms(2) this] obtain evs2 where "trace s' = trace s1 @ evs2" "list_all Q evs2" by blast
    then show ?thesis using e1 by auto
  qed
qed

lemma emits_catch:
  assumes "emits Q m" and "\<And>e. emits Q (h e)"
  shows "emits Q (catch m h)"
proof (rule emitsI)
  fix s r s' assume a: "catch m h s = (r, s')"
  obtain r1 s1 where m: "m s = (r1, s1)" by (cases "m s")
  from emitsD[OF assms(1) m] obtain evs1 where e1: "trace s1 = trace s @ evs1" "list_all Q evs1" by blast
  show "\<exists>evs. trace s' = trace s @ evs \<and> list_all Q evs"
  proof (cases r1)
    case (Inr x)
    then show ?thesis using a m e1 by (auto simp: catch_def)
  next
    case (Inl e)
    then have "h e s1 = (r, s')" using a m by (simp add: catch_def)
    from emitsD[OF assms(2) this] obtain evs2 where "trace s' = trace s1 @ evs2" "list_all Q evs2" by blast
    then show ?thesis using e1 by auto
  qed
qed

lemma emits_if: "emits Q a \<Longrightarrow> emits Q b \<Longrightarrow> emits Q (if c then a else b)"
  by simp

lemma emits_weaken: "emits Q m \<Longrightarrow> (\<And>ev. Q ev \<Longrightarrow> Q' ev) \<Longrightarrow> emits Q' m"
  unfolding emits_def by (metis list.pred_mono_strong)

lemmas emits_intros = emits_ret emits_raise emits_emit emits_set_context emits_call emits_bnd
  emits_catch emits_if

lemma emits_handle_cookie_consent: "emits inner_event (handle_cookie_consent P)"
  unfolding handle_cookie_consent_def by (intro emits_intros) simp_all

lemma emits_handle_blocking_page: "emits inner_event (handle_blocking_page U B P)"
  unfolding handle_blocking_page_def
  by (intro emits_intros; (simp split: option.split)?; (intro allI impI conjI emits_intros)?; simp?)

lemma emits_block_rounds: "emits inner_event (block_rounds U B P rounds)"
  by (induction rounds) (auto intro!: emits_intros emits_handle_blocking_page)

lemma emits_extract_and_close: "emits inner_event (extract_and_close U B P)"
  unfolding extract_and_close_def
  by (auto intro!: emits_intros simp: Let_def split: prod.splits)

lemma emits_navigate: "emits inner_event (navigate P url attempt)"
  unfolding navigate_def
  by (auto intro!: emits_intros split: option.splits)

lemma emits_after_goto: "emits inner_event (after_goto U B P resp)"
  unfolding after_goto_def
  by (auto intro!: emits_intros emits_handle_cookie_consent emits_block_rounds emits_extract_and_close)

lemma emits_attempt_body: "emits inner_event (attempt_body U B P url attempt)"
  unfolding attempt_body_def
  by (intro emits_bnd emits_navigate emits_after_goto)

lemma inner_quiet: "inner_event ev \<Longrightarrow> quiet ev"
  by (cases ev) (simp_all add: quiet_def)

lemma list_all_inner_quiet: "list_all inner_event evs \<Longrightarrow> list_all quiet evs"
  by (induction evs) (auto intro: inner_quiet)

lemma with_sem_trace:
  assumes "emits Q m" and "with_sem m s = (r, s')"
  shows "\<exists>evs s1. m (s\<lparr>trace := trace s @ [Acquire]\<rparr>) = (r, s1) \<and>
            s' = s1\<lparr>trace := trace s1 @ [Release]\<rparr> \<and>
            trace s1 = trace s @ Acquire # evs \<and> list_all Q evs"
proof -
  obtain r1 s1 where m: "m (s\<lparr>trace := trace s @ [Acquire]\<rparr>) = (r1, s1)"
    by (cases "m (s\<lparr>trace := trace s @ [Acquire]\<rparr>)")
  from emitsD[OF assms(1) m] obtain evs where "trace s1 = trace s @ Acquire # evs" "list_all Q evs"
    by auto
  moreover have "r = r1" "s' = s1\<lparr>trace := trace s1 @ [Release]\<rparr>"
    using assms(2) m by (simp_all add: with_sem_def bnd_def emit_def)
  ultimately show ?thesis using m by blast
qed

text \<open>The handler's conditional close.\<close>

lemma emits_close_if_context:
  "emits inner_event (\<lambda>s. if has_context s then call Close (close P) s else ret () s)"
proof (rule emitsI)
  fix s :: "'a state" and r s'
  assume a: "(if has_context s then call Close (close P) s else ret () s) = (r, s')"
  show "\<exists>evs. trace s' = trace s @ evs \<and> list_all inner_event evs"
  proof (cases "has_context s")
    case True
    then have "call Close (close P) s = (r, s')" using a by simp
    moreover have "emits inner_event (call Close (close P))" by (rule emits_call) simp_all
    ultimately show ?thesis using emitsD by blast
  next
    case False
    then show ?thesis using a by (simp add: ret_def)
  qed
qed

lemma attempts_Cons_cases:
  assumes "attempts U B P url (a # rest) s = (r, s')"
  shows "\<exists>mid. list_all quiet mid \<and>
           (trace s' = trace s @ Acquire # mid \<or>
            (\<exists>s4. a < MAX_RETRIES \<and> attempts U B P url rest s4 = (r, s') \<and>
                  trace s4 = trace s @ Acquire # mid @ [SleepBackoff]))"
proof -
  let ?s0 = "s\<lparr>has_context := False\<rparr>"
  obtain r1 s1' where w: "with_sem (attempt_body U B P url a) ?s0 = (r1, s1')"
    by (cases "with_sem (attempt_body U B P url a) ?s0")
  from with_sem_trace[OF emits_attempt_body w]
  obtain evs s1 where s1': "s1' = s1\<lparr>trace := trace s1 @ [Release]\<rparr>"
    and t1: "trace s1 = trace s @ Acquire # evs" and q1: "list_all inner_event evs"
    by auto
  have t1': "trace s1' = trace s @ Acquire # (evs @ [Release])" using s1' t1 by simp
  have q1': "list_all quiet (evs @ [Release])"
    using list_all_inner_quiet[OF q1] by (simp add: quiet_def)
  show ?thesis
  proof (cases r1)
    case (Inr x)
    then have "r = Inr x" "s' = s1'"
      using assms w by (simp_all add: bnd_def catch_def set_context_def)
    then show ?thesis using t1' q1' by blast
  next
    case (Inl e)
    let ?s2 = "s1'\<lparr>trace := trace s1' @ [Log (AttemptFailed a)]\<rparr>"
    obtain rc s3 where c: "(if has_context ?s2 then call Close (close P) ?s2 else ret () ?s2) = (rc, s3)"
      by (cases "if has_context ?s2 then call Close (close P) ?s2 else ret () ?s2")
    from emitsD[OF emits_close_if_context[of P], of ?s2 rc s3] c
    obtain cevs where t3: "trace s3 = trace ?s2 @ cevs" and qc: "list_all inner_event cevs"
      by auto
    let ?mid = "evs @ [Release, Log (AttemptFailed a)] @ cevs"
    have t3': "trace s3 = trace s @ Acquire # ?mid" using t3 t1' by simp
    have qm: "list_all quiet ?mid"
      using q1' list_all_inner_quiet[OF qc] by (simp add: quiet_def)
    have unf: "attempts U B P url (a # rest) s =
       (case rc of Inl e' \<Rightarrow> (Inl e', s3)
        | Inr u \<Rightarrow> (if a < MAX_RETRIES
                    then attempts U B P url rest (s3\<lparr>trace := trace s3 @ [SleepBackoff]\<rparr>)
                    else (Inr (sentinel_result error_sentinel), s3\<lparr>trace := trace s3 @ [Log AllFailed]\<rparr>)))"
      using w Inl c by (simp add: bnd_def catch_def set_context_def emit_def ret_def split: sum.splits)
    show ?thesis
    proof (cases rc)
      case (Inl e')
      then have "s' = s3" using unf assms by simp
      then show ?thesis using t3' qm by blast
    next
      case (Inr u)
      show ?thesis
      proof (cases "a < MAX_RETRIES")
        case True
        then have "attempts U B P url rest (s3\<lparr>trace := trace s3 @ [SleepBackoff]\<rparr>) = (r, s')"
          using unf assms Inr by simp
        moreover have "trace (s3\<lparr>trace := trace s3 @ [SleepBackoff]\<rparr>) = trace s @ Acquire # ?mid @ [SleepBackoff]"
          using t3' by simp
        ultimately show ?thesis using qm True by blast
      next
        case False
        then have "s' = s3\<lparr>trace := trace s3 @ [Log AllFailed]\<rparr>" using unf assms Inr by simp
        then have "trace s' = trace s @ Acquire # (?mid @ [Log AllFailed])" using t3' by simp
        moreover have "list_all quiet (?mid @ [Log AllFailed])" using qm by (simp add: quiet_def)
        ultimately show ?thesis by blast
      qed
    qed
  qed
qed

lemma aas_quiet: "list_all quiet evs \<Longrightarrow> attempt_after_sleep prev evs"
  by (induction evs arbitrary: prev) (auto simp: quiet_def)

lemma aas_append:
  "attempt_after_sleep prev (xs @ ys) =
     (attempt_after_sleep prev xs \<and> attempt_after_sleep (last (prev # xs)) ys)"
  by (induction xs arbitrary: prev) auto

lemma attempts_trace:
  assumes "attempts U B P url as s = (r, s')"
  shows "\<exists>evs. trace s' = trace s @ evs \<and> SleepJitter \<notin> set evs \<and>
           attempt_after_sleep SleepJitter evs \<and> attempt_after_sleep SleepBackoff evs \<and>
           attempts_made evs \<le> length as"
  using assms
proof (induction as arbitrary: s)
  case Nil
  then show ?case by (simp add: ret_def attempts_made_def)
next
  case (Cons a rest)
  from attempts_Cons_cases[OF Cons.prems] obtain mid where q: "list_all quiet mid"
    and d: "trace s' = trace s @ Acquire # mid \<or>
            (\<exists>s4. a < MAX_RETRIES \<and> attempts U B P url rest s4 = (r, s') \<and>
                  trace s4 = trace s @ Acquire # mid @ [SleepBackoff])"
    by blast
  have nj: "SleepJitter \<notin> set mid" using q by (auto simp: list_all_iff quiet_def)
  have na: "filter (\<lambda>ev. ev = Acquire) mid = []"
    using q by (auto simp: list_all_iff quiet_def filter_empty_conv)
  from d show ?case
  proof
    assume t: "trace s' = trace s @ Acquire # mid"
    show ?thesis
      using t nj na aas_quiet[OF q] by (intro exI[of _ "Acquire # mid"]) (simp add: attempts_made_def)
  next
    assume "\<exists>s4. a < MAX_RETRIES \<and> attempts U B P url rest s4 = (r, s') \<and>
                  trace s4 = trace s @ Acquire # mid @ [SleepBackoff]"
    then obtain s4 where r4: "attempts U B P url rest s4 = (r, s')"
      and t4: "trace s4 = trace s @ Acquire # mid @ [SleepBackoff]" by blast
    from Cons.IH[OF r4] obtain evs where t: "trace s' = trace s4 @ evs"
      and j: "SleepJitter \<notin> set evs" and b: "attempt_after_sleep SleepBackoff evs"
      and n: "attempts_made evs \<le> length rest" by blast
    let ?evs = "Acquire # mid @ [SleepBackoff] @ evs"
    have "trace s' = trace s @ ?evs" using t t4 by simp
    moreover have "SleepJitter \<notin> set ?evs" using nj j by simp
    moreover have "attempt_after_sleep Acquire (mid @ [SleepBackoff] @ evs)"
      using aas_quiet[OF q] b by (simp add: aas_append)
    then have "attempt_after_sleep SleepJitter ?evs" "attempt_after_sleep SleepBackoff ?evs"
      by simp_all
    moreover have "attempts_made ?evs \<le> length (a # rest)"
      using n na by (simp add: attempts_made_def)
    ultimately show ?thesis by blast
  qed
qed
section \<open>Proofs: facts about the example world\<close>

lemmas lib_defs = literal_ignore_def latin1_def ustr_def

lemma amazon_not_error_title:
  "\<not> re_search_ignorecase latin1 NOT_FOUND_RE (ustr ''Amazon.fr'')"
  by (simp add: NOT_FOUND_RE_def lib_defs)

lemma amazon_not_captcha_title:
  "\<not> re_search_ignorecase latin1 CAPTCHA_RE (ustr ''Amazon.fr'')"
  by (simp add: CAPTCHA_RE_def lib_defs)

lemma re_search_here:
  "list_ex (\<lambda>a. match_here U a s) alts \<Longrightarrow> re_search_ignorecase U alts s"
  by (cases s) auto

lemma robot_matches: "match_here latin1 (ustr ''robot'') (ustr ''Robot Check'')"
  by (simp add: lib_defs)

lemma robot_check_blocked: "is_page_blocked latin1 B html (ustr ''Robot Check'')"
  unfolding is_page_blocked_def
  using re_search_here[of latin1 "ustr ''Robot Check''" CAPTCHA_RE] robot_matches
  by (simp add: CAPTCHA_RE_def)

lemma robot_not_error_title:
  "\<not> re_search_ignorecase latin1 NOT_FOUND_RE (ustr ''Robot Check'')"
  by (simp add: NOT_FOUND_RE_def lib_defs)

lemma introuvable_matches:
  "match_here latin1 (ustr ''page introuvable'') (ustr ''Page introuvable'')"
  by (simp add: lib_defs)

lemma introuvable_is_error_title:
  "re_search_ignorecase latin1 NOT_FOUND_RE (ustr ''Page introuvable'')"
  using re_search_here[of latin1 "ustr ''Page introuvable''" NOT_FOUND_RE] introuvable_matches
  by (simp add: NOT_FOUND_RE_def)

lemma product_not_blocked:
  "\<not> is_page_blocked latin1 (table_bs4 example_pages) (ustr ''product'') (ustr ''Amazon.fr'')"
  using amazon_not_captcha_title
  by (simp add: is_page_blocked_def soup_find_def table_bs4_def example_pages_def product_page_def)

lemma captcha_page_blocked:
  "is_page_blocked latin1 (table_bs4 example_pages) (ustr ''captcha'') (ustr ''Amazon.fr'')"
proof -
  have m: "match_here latin1 (ustr ''validateCaptcha'') (ustr ''validateCaptcha'')"
    by (simp add: lib_defs)
  have f: "re_search_ignorecase latin1 [ustr ''validateCaptcha''] (ustr ''validateCaptcha'')"
    using re_search_here[of latin1 "ustr ''validateCaptcha''" "[ustr ''validateCaptcha'']"] m by simp
  have e: "ustr ''/errors/validateCaptcha'' = ustr ''/errors/'' @ ustr ''validateCaptcha''"
    by (simp add: ustr_def)
  have "re_search_ignorecase latin1 [ustr ''validateCaptcha''] (ustr ''/errors/validateCaptcha'')"
    unfolding e using f by (simp add: ustr_def)
  then show ?thesis
    by (simp add: is_page_blocked_def soup_find_def table_bs4_def example_pages_def captcha_page_def
          ustr_def)
qed

lemma product_availability:
  "extract_availability (table_bs4 example_pages)
     (BeautifulSoup (table_bs4 example_pages) (ustr ''product'')) = ustr ''En stock''"
  by (simp add: extract_availability_def selectors_to_try_def table_bs4_def example_pages_def
        product_page_def ustr_def)

lemma product_reviews:
  "extract_reviews_info latin1 (table_bs4 example_pages)
     (BeautifulSoup (table_bs4 example_pages) (ustr ''product'')) = (PFloat (ustr ''4.5''), PInt 1234)"
  by (simp add: extract_reviews_info_def popover_stars_def icon_stars_def count_reviews_def
        table_bs4_def example_pages_def product_page_def lib_defs
        search_stars.simps stars_here_def stars_tail_def stars_suffixes_def replace_comma_def numchar_def
        py_float_def py_int_def only_digits_def aucune_note_def upt_rec)

lemma success_trace:
  "trace (snd (scrape_one latin1 (table_bs4 example_pages) scripted url (start script_success)))
     = [SleepJitter, Acquire, Returned NewContext, Returned NewPage,
        Log (Navigating 1), Returned Goto, Returned Title, Raised AcceptWaitVisible,
        Returned Content, Returned Title, Returned Content, Log Success,
        Returned Close, Release]"
  unfolding scrape_one_def upt_1_4 script_success_def
  by (simp add: prog_defs worker_defs script_defs upt_0_2 amazon_not_error_title
        product_not_blocked product_availability product_reviews)

lemma timeout_then_success_trace:
  "trace (snd (scrape_one latin1 (table_bs4 example_pages) scripted url
                 (start script_timeout_then_success)))
     = [SleepJitter, Acquire, Returned NewContext, Returned NewPage,
        Log (Navigating 1), Raised Goto, Release, Log (AttemptFailed 1), Returned Close,
        SleepBackoff, Acquire, Returned NewContext, Returned NewPage,
        Log (Navigating 2), Returned Goto, Returned Title, Raised AcceptWaitVisible,
        Returned Content, Returned Title, Returned Content, Log Success,
        Returned Close, Release]"
  unfolding scrape_one_def upt_1_4 script_timeout_then_success_def script_success_def
  by (simp add: prog_defs worker_defs script_defs upt_0_2 amazon_not_error_title
        product_not_blocked product_availability product_reviews)
section \<open>Proofs: the shape of results\<close>

lemma yieldsI: "(\<And>s x s'. m s = (Inr x, s') \<Longrightarrow> R x s') \<Longrightarrow> yields R m"
  by (simp add: yields_def)

lemma yieldsD: "yields R m \<Longrightarrow> m s = (Inr x, s') \<Longrightarrow> R x s'"
  by (simp add: yields_def)

lemma yields_raise: "yields R (raise e)"
  by (simp add: yields_def raise_def)

lemma yields_bnd: "(\<And>x. yields R (k x)) \<Longrightarrow> yields R (bnd m k)"
  by (auto simp: yields_def bnd_def split: prod.splits sum.splits)

lemma yields_catch: "yields R m \<Longrightarrow> (\<And>e. yields R (h e)) \<Longrightarrow> yields R (catch m h)"
  by (auto simp: yields_def catch_def split: prod.splits sum.splits)

lemma yields_if: "yields R a \<Longrightarrow> yields R b \<Longrightarrow> yields R (if c then a else b)"
  by simp

lemma trace_grows:
  assumes "emits Q m" and "m s = (r, s')"
  shows "set (trace s) \<subseteq> set (trace s')"
  using emitsD[OF assms] by auto

lemma try_selectors_nonempty: "try_selectors B soup selectors \<noteq> []"
  by (induction selectors) (auto simp: not_available_def ustr_def Let_def split: option.splits)

lemma extract_availability_nonempty: "extract_availability B soup \<noteq> []"
  by (simp add: extract_availability_def try_selectors_nonempty)

lemma py_float_shape: "py_float U g = Some f \<Longrightarrow> \<exists>x. f = PFloat x"
  by (auto simp: py_float_def split: if_splits)

lemma py_int_shape: "py_int U g = Some n \<Longrightarrow> \<exists>x. n = PInt x"
  by (auto simp: py_int_def split: if_splits)

lemma popover_stars_shape:
  "popover_stars U B rs = PStr aucune_note \<or> (\<exists>f. popover_stars U B rs = PFloat f)"
  unfolding popover_stars_def by (auto split: option.splits dest: py_float_shape)

lemma icon_stars_shape:
  "st = PStr aucune_note \<or> (\<exists>f. st = PFloat f) \<Longrightarrow>
   icon_stars U B rs st = PStr aucune_note \<or> (\<exists>f. icon_stars U B rs st = PFloat f)"
  unfolding icon_stars_def Let_def by (auto split: option.splits dest: py_float_shape)

lemma count_reviews_shape:
  "count_reviews U B rs = PStr aucune_note \<or> (\<exists>n. count_reviews U B rs = PInt n)"
  unfolding count_reviews_def Let_def by (auto split: option.splits dest: py_int_shape)

lemma extract_reviews_info_shape:
  assumes "extract_reviews_info U B soup = (stars, reviews)"
  shows "(stars = PStr aucune_note \<or> (\<exists>f. stars = PFloat f)) \<and>
         (reviews = PStr aucune_note \<or> (\<exists>n. reviews = PInt n))"
proof (cases "select_one B soup (ustr ''#averageCustomerReviews_feature_div, #averageCustomerReviews'')")
  case None
  then have "stars = PStr aucune_note" "reviews = PStr aucune_note"
    using assms by (auto simp: extract_reviews_info_def)
  then show ?thesis by simp
next
  case (Some rs)
  then have "stars = icon_stars U B rs (popover_stars U B rs)" "reviews = count_reviews U B rs"
    using assms by (auto simp: extract_reviews_info_def)
  moreover have p: "popover_stars U B rs = PStr aucune_note \<or> (\<exists>f. popover_stars U B rs = PFloat f)"
    by (rule popover_stars_shape)
  have "icon_stars U B rs (popover_stars U B rs) = PStr aucune_note \<or>
        (\<exists>f. icon_stars U B rs (popover_stars U B rs) = PFloat f)"
    by (rule icon_stars_shape[OF p])
  moreover have "count_reviews U B rs = PStr aucune_note \<or> (\<exists>n. count_reviews U B rs = PInt n)"
    by (rule count_reviews_shape)
  ultimately show ?thesis by simp
qed

lemma extracted_iff:
  "extracted [(''availability'', PStr a), (''average_stars'', st), (''total_reviews'', rv)] =
     (a \<noteq> [] \<and> (st = PStr aucune_note \<or> (\<exists>f. st = PFloat f)) \<and>
      (rv = PStr aucune_note \<or> (\<exists>n. rv = PInt n)))"
  by (auto simp: extracted_def)

lemma yields_extract_and_close:
  "yields (\<lambda>r s. extracted r \<and> Log Success \<in> set (trace s)) (extract_and_close U B P)"
proof (rule yieldsI)
  fix s :: "'a state" and x s'
  assume a: "extract_and_close U B P s = (Inr x, s')"
  obtain rc s1 where c: "call Content (content P) s = (rc, s1)" by (cases "call Content (content P) s")
  show "extracted x \<and> Log Success \<in> set (trace s')"
  proof (cases rc)
    case (Inl e)
    then show ?thesis using a c by (simp add: extract_and_close_def bnd_def)
  next
    case (Inr html)
    let ?soup = "BeautifulSoup B html"
    obtain stars reviews where er: "extract_reviews_info U B ?soup = (stars, reviews)"
      by (cases "extract_reviews_info U B ?soup")
    let ?s2 = "s1\<lparr>trace := trace s1 @ [Log Success]\<rparr>"
    obtain rk s3 where k: "call Close (close P) ?s2 = (rk, s3)" by (cases "call Close (close P) ?s2")
    have "emits (\<lambda>_. True) (call Close (close P))" by (rule emits_call) simp_all
    then have sub: "set (trace ?s2) \<subseteq> set (trace s3)"
      using k by (rule trace_grows)
    have unf: "extract_and_close U B P s =
       (case rk of Inl e \<Rightarrow> (Inl e, s3)
        | Inr u \<Rightarrow> (Inr [(''availability'', PStr (extract_availability B ?soup)),
                        (''average_stars'', stars), (''total_reviews'', reviews)], s3))"
      using c Inr er k by (simp add: extract_and_close_def bnd_def emit_def ret_def split: sum.splits)
    from a unf have x: "x = [(''availability'', PStr (extract_availability B ?soup)),
                        (''average_stars'', stars), (''total_reviews'', reviews)]" and "s' = s3"
      by (auto split: sum.splits)
    then show ?thesis
      using sub extract_reviews_info_shape[OF er] extract_availability_nonempty[of B ?soup]
      by (auto simp: extracted_iff)
  qed
qed

lemma yields_ret: "(\<And>s. R x s) \<Longrightarrow> yields R (ret x)"
  by (simp add: yields_def ret_def)

lemma yields_weaken: "yields R m \<Longrightarrow> (\<And>x s. R x s \<Longrightarrow> R' x s) \<Longrightarrow> yields R' m"
  by (auto simp: yields_def)

lemma sentinel_result_keys: "map fst (sentinel_result x) = result_keys"
  by (simp add: sentinel_result_def comp_def)

lemma sentinel_result_values: "PNone \<notin> snd ` set (sentinel_result x)"
  by (auto simp: sentinel_result_def)

lemma extractedD:
  assumes "extracted r"
  shows "\<exists>a st rv. r = [(''availability'', PStr a), (''average_stars'', st), (''total_reviews'', rv)] \<and>
           a \<noteq> [] \<and> (st = PStr aucune_note \<or> (\<exists>f. st = PFloat f)) \<and>
           (rv = PStr aucune_note \<or> (\<exists>n. rv = PInt n))"
  using assms unfolding extracted_def .
section \<open>Proofs: pages that do not exist\<close>

lemma call_returns:
  "f (world s) = (Inr x, w) \<Longrightarrow> call c f s = (Inr x, s\<lparr>world := w, trace := trace s @ [Returned c]\<rparr>)"
  by (simp add: call_def)

lemma call_raises:
  "f (world s) = (Inl e, w) \<Longrightarrow> call c f s = (Inl e, s\<lparr>world := w, trace := trace s @ [Raised c]\<rparr>)"
  by (simp add: call_def)

lemma navigate_trace:
  assumes "navigate P url attempt s = (r, s1)"
  shows "\<exists>evs. trace s1 = trace s @ evs \<and> list_all inner_event evs"
  using emitsD[OF emits_navigate assms] .

lemma attempts_made_append:
  "attempts_made (xs @ ys) = attempts_made xs + attempts_made ys"
  by (simp add: attempts_made_def)

lemma attempts_made_inner: "list_all inner_event evs \<Longrightarrow> attempts_made evs = 0"
  by (induction evs) (auto simp: attempts_made_def)

text \<open>
  Claim C3, as amended.  Take any attempt of the retry loop, started in any state \<open>s\<close>, whose
  navigation returns the response \<open>resp\<close>.  If the status of \<open>resp\<close> is 400 or more, or if
  it is not (or there is no response) and the title read next matches the not-found
  pattern, and if the \<^verbatim>\<open>context.close()\<close> that follows returns, then the worker returns the
  \<open>Page n'existe pas\<close> sentinel in all three fields at once: the only events after the
  navigation are \<open>evs\<close>, which end the attempt, and the trace holds one attempt more than
  before, so no retry is made.
\<close>

theorem not_found_ends_the_worker_when_close_returns:
  assumes nav: "navigate P url attempt (s\<lparr>has_context := False, trace := trace s @ [Acquire]\<rparr>)
                  = (Inr resp, s1)"
    and found:
      "(case resp of None \<Rightarrow> False | Some status \<Rightarrow> 400 \<le> status) \<and>
         close P (world s1) = (Inr (), w') \<and>
         evs = [Log HttpStatus, Returned Close, Release]
       \<or>
       (case resp of None \<Rightarrow> True | Some status \<Rightarrow> status < 400) \<and>
         (\<exists>t w1. title P (world s1) = (Inr t, w1) \<and> re_search_ignorecase U NOT_FOUND_RE t \<and>
                  close P w1 = (Inr (), w')) \<and>
         evs = [Returned Title, Log ErrorTitle, Returned Close, Release]"
  shows "attempts U B P url (attempt # rest) s
           = (Inr (sentinel_result page_nexiste_pas), s1\<lparr>world := w', trace := trace s1 @ evs\<rparr>) \<and>
         attempts_made (trace s1 @ evs) = attempts_made (trace s) + 1"
proof -
  from navigate_trace[OF nav] obtain nevs where t1: "trace s1 = trace s @ Acquire # nevs"
    and inner: "list_all inner_event nevs" by auto
  have unf: "attempts U B P url (attempt # rest) s
       = (case after_goto U B P resp s1 of
            (Inl e, s2) \<Rightarrow>
               bnd (emit (Log (AttemptFailed attempt))) (\<lambda>_.
               bnd (\<lambda>s. if has_context s then call Close (close P) s else ret () s) (\<lambda>_.
               if attempt < MAX_RETRIES
               then bnd (emit SleepBackoff) (\<lambda>_. attempts U B P url rest)
               else bnd (emit (Log AllFailed)) (\<lambda>_. ret (sentinel_result error_sentinel))))
                 (s2\<lparr>trace := trace s2 @ [Release]\<rparr>)
          | (Inr x, s2) \<Rightarrow> (Inr x, s2\<lparr>trace := trace s2 @ [Release]\<rparr>))"
    using nav
    by (simp add: bnd_def catch_def set_context_def with_sem_def emit_def attempt_body_def
          split: prod.splits sum.splits)
  have res: "after_goto U B P resp s1
       = (Inr (sentinel_result page_nexiste_pas), s1\<lparr>world := w', trace := trace s1 @ butlast evs\<rparr>)"
    using found
  proof
    assume a: "(case resp of None \<Rightarrow> False | Some status \<Rightarrow> 400 \<le> status) \<and>
         close P (world s1) = (Inr (), w') \<and> evs = [Log HttpStatus, Returned Close, Release]"
    then show ?thesis
      by (simp add: after_goto_def bnd_def emit_def call_def ret_def)
  next
    assume a: "(case resp of None \<Rightarrow> True | Some status \<Rightarrow> status < 400) \<and>
         (\<exists>t w1. title P (world s1) = (Inr t, w1) \<and> re_search_ignorecase U NOT_FOUND_RE t \<and>
                  close P w1 = (Inr (), w')) \<and>
         evs = [Returned Title, Log ErrorTitle, Returned Close, Release]"
    then obtain t w1 where t: "title P (world s1) = (Inr t, w1)"
      and m: "re_search_ignorecase U NOT_FOUND_RE t" and c: "close P w1 = (Inr (), w')"
      and evs: "evs = [Returned Title, Log ErrorTitle, Returned Close, Release]" by blast
    have nost: "\<not> (case resp of None \<Rightarrow> False | Some status \<Rightarrow> 400 \<le> status)"
      using a by (cases resp) auto
    show ?thesis
      using nost t m c evs by (simp add: after_goto_def bnd_def emit_def call_def ret_def)
  qed
  have last: "evs = butlast evs @ [Release]" using found by auto
  have "attempts U B P url (attempt # rest) s
      = (Inr (sentinel_result page_nexiste_pas), s1\<lparr>world := w', trace := trace s1 @ butlast evs @ [Release]\<rparr>)"
    unfolding unf res by simp
  moreover have "attempts_made (trace s1 @ evs) = attempts_made (trace s) + 1"
    using found t1 attempts_made_inner[OF inner] by (auto simp: attempts_made_def)
  ultimately show ?thesis using last by simp
qed

theorem not_found_ends_the_worker_when_close_returns_witness:
  "attempts latin1 (table_bs4 example_pages) scripted (ustr ''u'') [1, 2, 3] (start script_404)
     = (Inr (sentinel_result page_nexiste_pas),
        \<lparr>world = [],
         trace = [Acquire, Returned NewContext, Returned NewPage, Log (Navigating 1),
                  Returned Goto, Log HttpStatus, Returned Close, Release],
         has_context = True\<rparr>) \<and>
   attempts_made [Acquire, Returned NewContext, Returned NewPage, Log (Navigating 1),
                  Returned Goto, Log HttpStatus, Returned Close, Release] = 1"
proof -
  let ?s1 = "\<lparr>world = [Returns],
              trace = [Acquire, Returned NewContext, Returned NewPage, Log (Navigating 1), Returned Goto],
              has_context = True\<rparr>"
  have nav: "navigate scripted (ustr ''u'') 1
               ((start script_404)\<lparr>has_context := False, trace := trace (start script_404) @ [Acquire]\<rparr>)
             = (Inr (Some 404), ?s1)"
    by (simp add: navigate_def prog_defs script_defs start_def script_404_def)
  have found:
      "(case Some (404::int) of None \<Rightarrow> False | Some status \<Rightarrow> 400 \<le> status) \<and>
         close scripted (world ?s1) = (Inr (), []) \<and>
         [Log HttpStatus, Returned Close, Release] = [Log HttpStatus, Returned Close, Release]
       \<or>
       (case Some (404::int) of None \<Rightarrow> True | Some status \<Rightarrow> status < 400) \<and>
         (\<exists>t w1. title scripted (world ?s1) = (Inr t, w1) \<and> re_search_ignorecase latin1 NOT_FOUND_RE t \<and>
                  close scripted w1 = (Inr (), [])) \<and>
         [Log HttpStatus, Returned Close, Release] = [Returned Title, Log ErrorTitle, Returned Close, Release]"
    by (simp add: script_defs)
  from not_found_ends_the_worker_when_close_returns[OF nav found, of "table_bs4 example_pages" "[2, 3]"]
  show ?thesis by (simp add: attempts_made_def start_def)
qed

text \<open>
  Claim C3 as stated fails: the first navigation is answered with status 404, but closing
  the context raises, so the attempt is handled as a failure and a second attempt is made.
\<close>

theorem not_found_is_retried_when_close_raises:
  "navigate scripted (ustr ''u'') 1
       ((start script_404_close_fails)\<lparr>trace := [SleepJitter, Acquire]\<rparr>)
     = (Inr (Some 404),
        \<lparr>world = [Fails PlaywrightError, Returns, Returns, Returns, Response (Some 404), Returns],
         trace = [SleepJitter, Acquire, Returned NewContext, Returned NewPage, Log (Navigating 1),
                  Returned Goto],
         has_context = True\<rparr>) \<and>
   scrape_one latin1 (table_bs4 example_pages) scripted (ustr ''u'') (start script_404_close_fails)
     = (Inr (sentinel_result page_nexiste_pas),
        \<lparr>world = [],
         trace = [SleepJitter, Acquire, Returned NewContext, Returned NewPage, Log (Navigating 1),
                  Returned Goto, Log HttpStatus, Raised Close, Release, Log (AttemptFailed 1),
                  Returned Close, SleepBackoff,
                  Acquire, Returned NewContext, Returned NewPage, Log (Navigating 2),
                  Returned Goto, Log HttpStatus, Returned Close, Release],
         has_context = True\<rparr>) \<and>
   attempts_made (trace (snd (scrape_one latin1 (table_bs4 example_pages) scripted (ustr ''u'')
                                (start script_404_close_fails)))) = 2"
proof -
  have n: "navigate scripted (ustr ''u'') 1
       ((start script_404_close_fails)\<lparr>trace := [SleepJitter, Acquire]\<rparr>)
     = (Inr (Some 404),
        \<lparr>world = [Fails PlaywrightError, Returns, Returns, Returns, Response (Some 404), Returns],
         trace = [SleepJitter, Acquire, Returned NewContext, Returned NewPage, Log (Navigating 1),
                  Returned Goto],
         has_context = True\<rparr>)"
    by (simp add: navigate_def prog_defs script_defs start_def script_404_close_fails_def)
  have e: "scrape_one latin1 (table_bs4 example_pages) scripted (ustr ''u'') (start script_404_close_fails)
     = (Inr (sentinel_result page_nexiste_pas),
        \<lparr>world = [],
         trace = [SleepJitter, Acquire, Returned NewContext, Returned NewPage, Log (Navigating 1),
                  Returned Goto, Log HttpStatus, Raised Close, Release, Log (AttemptFailed 1),
                  Returned Close, SleepBackoff,
                  Acquire, Returned NewContext, Returned NewPage, Log (Navigating 2),
                  Returned Goto, Log HttpStatus, Returned Close, Release],
         has_context = True\<rparr>)"
    unfolding scrape_one_def upt_1_4 script_404_close_fails_def
    by (simp add: prog_defs worker_defs script_defs)
  show ?thesis unfolding e using n by (simp add: attempts_made_def)
qed

lemma extracted_not_sentinel: "extracted r \<Longrightarrow> r \<noteq> sentinel_result page_nexiste_pas"
  by (auto simp: extracted_def sentinel_result_def result_keys_def aucune_note_def
        page_nexiste_pas_def ustr_def)

lemma yields_recover_and_extract:
  "yields (\<lambda>r s. extracted r)
     (bnd (handle_cookie_consent P) (\<lambda>_. bnd (block_rounds U B P [0..<2]) (\<lambda>_.
        extract_and_close U B P)))"
  by (intro yields_bnd yields_weaken[OF yields_extract_and_close]) simp

text \<open>
  Claim C10.  When \<^verbatim>\<open>page.goto\<close> returned no response, the attempt goes on exactly as for a
  response with any status below 400: the next thing it does is to read the title; the
  result it returns, if any, is the \<open>Page n'existe pas\<close> sentinel exactly when the title was
  read and matches the not-found pattern; and when the title does not match, the attempt
  is the consent handling, the block recovery and the extraction.
\<close>

theorem no_response_skips_the_status_check:
  assumes run: "after_goto U B P None s = (r, s')"
  shows "(\<forall>status. status < 400 \<longrightarrow> after_goto U B P (Some status) s = (r, s')) \<and>
         (\<exists>evs. trace s' = trace s @ Returned Title # evs \<or> trace s' = trace s @ Raised Title # evs) \<and>
         (\<forall>res. r = Inr res \<longrightarrow>
            (res = sentinel_result page_nexiste_pas) =
            (\<exists>t w. title P (world s) = (Inr t, w) \<and> re_search_ignorecase U NOT_FOUND_RE t)) \<and>
         (\<forall>t w. title P (world s) = (Inr t, w) \<and> \<not> re_search_ignorecase U NOT_FOUND_RE t \<longrightarrow>
            (r, s') = bnd (handle_cookie_consent P) (\<lambda>_. bnd (block_rounds U B P [0..<2]) (\<lambda>_.
                        extract_and_close U B P))
                        (s\<lparr>world := w, trace := trace s @ [Returned Title]\<rparr>))"
proof -
  let ?rest = "bnd (handle_cookie_consent P) (\<lambda>_. bnd (block_rounds U B P [0..<2]) (\<lambda>_.
                 extract_and_close U B P))"
  let ?found = "bnd (emit (Log ErrorTitle)) (\<lambda>_. bnd (call Close (close P)) (\<lambda>_.
                  ret (sentinel_result page_nexiste_pas)))"
  have same: "\<And>status. status < 400 \<Longrightarrow> after_goto U B P (Some status) = after_goto U B P None"
    by (simp add: after_goto_def)
  have c1: "\<forall>status. status < 400 \<longrightarrow> after_goto U B P (Some status) s = (r, s')"
    using same run by simp
  obtain rt w where t: "title P (world s) = (rt, w)" by (cases "title P (world s)")
  show ?thesis
  proof (cases rt)
    case (Inl e)
    then have "after_goto U B P None s = (Inl e, s\<lparr>world := w, trace := trace s @ [Raised Title]\<rparr>)"
      using t by (simp add: after_goto_def bnd_def call_def)
    then have "r = Inl e" "s' = s\<lparr>world := w, trace := trace s @ [Raised Title]\<rparr>"
      using run by simp_all
    then show ?thesis using c1 t Inl by simp
  next
    case (Inr page_title)
    let ?s1 = "s\<lparr>world := w, trace := trace s @ [Returned Title]\<rparr>"
    have unf: "after_goto U B P None s =
        (if re_search_ignorecase U NOT_FOUND_RE page_title then ?found ?s1 else ?rest ?s1)"
      using t Inr by (simp add: after_goto_def bnd_def call_def)
    have ev: "\<exists>evs. trace s' = trace s @ Returned Title # evs"
    proof (cases "re_search_ignorecase U NOT_FOUND_RE page_title")
      case True
      have "emits (\<lambda>_. True) ?found" by (intro emits_intros) simp_all
      from emitsD[OF this, of ?s1 r s'] unf run True show ?thesis by auto
    next
      case False
      have "emits inner_event ?rest"
        by (intro emits_bnd emits_handle_cookie_consent emits_block_rounds emits_extract_and_close)
      from emitsD[OF this, of ?s1 r s'] unf run False show ?thesis by auto
    qed
    have c3: "\<forall>res. r = Inr res \<longrightarrow>
            (res = sentinel_result page_nexiste_pas) =
            (\<exists>t w. title P (world s) = (Inr t, w) \<and> re_search_ignorecase U NOT_FOUND_RE t)"
    proof (intro allI impI)
      fix res assume r: "r = Inr res"
      show "(res = sentinel_result page_nexiste_pas) =
            (\<exists>t w. title P (world s) = (Inr t, w) \<and> re_search_ignorecase U NOT_FOUND_RE t)"
      proof (cases "re_search_ignorecase U NOT_FOUND_RE page_title")
        case True
        have "yields (\<lambda>x s. x = sentinel_result page_nexiste_pas) ?found"
          by (intro yields_bnd yields_ret) simp
        from yieldsD[OF this, of ?s1 res s'] unf run True r
        have "res = sentinel_result page_nexiste_pas" by simp
        then show ?thesis using t Inr True by simp
      next
        case False
        from yieldsD[OF yields_recover_and_extract, of P U B ?s1 res s'] unf run False r
        have "extracted res" by simp
        then show ?thesis using extracted_not_sentinel t Inr False by auto
      qed
    qed
    have c4: "\<forall>t w. title P (world s) = (Inr t, w) \<and> \<not> re_search_ignorecase U NOT_FOUND_RE t \<longrightarrow>
            (r, s') = ?rest (s\<lparr>world := w, trace := trace s @ [Returned Title]\<rparr>)"
      using t Inr unf run by auto
    show ?thesis using c1 ev c3 c4 by blast
  qed
qed

theorem no_response_skips_the_status_check_witness:
  "after_goto latin1 (table_bs4 example_pages) scripted None
       \<lparr>world = [Text (ustr ''Page introuvable''), Returns], trace = [], has_context = True\<rparr>
     = (Inr (sentinel_result page_nexiste_pas),
        \<lparr>world = [], trace = [Returned Title, Log ErrorTitle, Returned Close], has_context = True\<rparr>) \<and>
   after_goto latin1 (table_bs4 example_pages) scripted (Some 200)
       \<lparr>world = [Text (ustr ''Page introuvable''), Returns], trace = [], has_context = True\<rparr>
     = (Inr (sentinel_result page_nexiste_pas),
        \<lparr>world = [], trace = [Returned Title, Log ErrorTitle, Returned Close], has_context = True\<rparr>)"
proof -
  have run: "after_goto latin1 (table_bs4 example_pages) scripted None
       \<lparr>world = [Text (ustr ''Page introuvable''), Returns], trace = [], has_context = True\<rparr>
     = (Inr (sentinel_result page_nexiste_pas),
        \<lparr>world = [], trace = [Returned Title, Log ErrorTitle, Returned Close], has_context = True\<rparr>)"
    by (simp add: after_goto_def prog_defs script_defs introuvable_is_error_title)
  from no_response_skips_the_status_check[OF run]
  have "after_goto latin1 (table_bs4 example_pages) scripted (Some 200)
       \<lparr>world = [Text (ustr ''Page introuvable''), Returns], trace = [], has_context = True\<rparr>
     = (Inr (sentinel_result page_nexiste_pas),
        \<lparr>world = [], trace = [Returned Title, Log ErrorTitle, Returned Close], has_context = True\<rparr>)"
    by simp
  then show ?thesis using run by simp
qed
section \<open>Proofs: block recovery\<close>

lemma block_rounds_unfold:
  "block_rounds U B P (round # rounds) s0 =
     (case classify U B P s0 of
        (Inl e, s1) \<Rightarrow> (Inl e, s1)
      | (Inr blocked, s1) \<Rightarrow>
          if blocked
          then (case clear_block U B P s1 of
                  (Inl e, s2) \<Rightarrow> (Inl e, s2)
                | (Inr cleared, s2) \<Rightarrow>
                    if cleared
                    then (case pause P s2 of
                            (Inl e, s3) \<Rightarrow> (Inl e, s3)
                          | (Inr u, s3) \<Rightarrow> block_rounds U B P rounds s3)
                    else (Inl RuntimeError, s2))
          else (Inr (), s1))"
  by (simp add: classify_def clear_block_def pause_def bnd_def ret_def raise_def
        split: prod.splits sum.splits)

text \<open>
  Claim C6, as amended.  When \<^verbatim>\<open>handle_blocking_page\<close> finds neither the continue button
  nor a CAPTCHA image visible, it logs that no image CAPTCHA was found and returns
  \<open>False\<close>, the value it also returns for a failed recovery; and the worker, which called
  it because it classified the page as blocked, raises \<^verbatim>\<open>RuntimeError\<close> for the attempt
  at once, whatever rounds were left.
\<close>

theorem nothing_to_clear_fails_the_attempt:
  assumes cont: "continue_is_visible P (world s) = (Inr False, w1)"
    and capt: "captcha_is_visible P w1 = (Inr False, w2)"
  shows "handle_blocking_page U B P s
           = (Inr False,
              s\<lparr>world := w2,
                trace := trace s @ [Returned ContinueIsVisible, Returned CaptchaIsVisible,
                                    Log NoImageCaptcha]\<rparr>) \<and>
         (\<forall>s0 round rounds. classify U B P s0 = (Inr True, s) \<longrightarrow>
            block_rounds U B P (round # rounds) s0
              = (Inl RuntimeError,
                 s\<lparr>world := w2,
                   trace := trace s @ [Log BlockedDetected, Returned ContinueIsVisible,
                                       Returned CaptchaIsVisible, Log NoImageCaptcha]\<rparr>))"
proof -
  have h: "\<And>s'. world s' = world s \<Longrightarrow> handle_blocking_page U B P s'
           = (Inr False,
              s'\<lparr>world := w2,
                 trace := trace s' @ [Returned ContinueIsVisible, Returned CaptchaIsVisible,
                                     Log NoImageCaptcha]\<rparr>)"
    using cont capt
    by (simp add: handle_blocking_page_def bnd_def call_def emit_def ret_def)
  have c: "clear_block U B P s
           = (Inr False,
              s\<lparr>world := w2,
                trace := trace s @ [Log BlockedDetected, Returned ContinueIsVisible,
                                    Returned CaptchaIsVisible, Log NoImageCaptcha]\<rparr>)"
    using h[of "s\<lparr>trace := trace s @ [Log BlockedDetected]\<rparr>"]
    by (simp add: clear_block_def bnd_def emit_def)
  show ?thesis using h[of s] c by (simp add: block_rounds_unfold del: block_rounds.simps)
qed

theorem nothing_to_clear_fails_the_attempt_witness:
  "handle_blocking_page latin1 (table_bs4 example_pages) scripted
       \<lparr>world = [Says False, Says False], trace = [], has_context = True\<rparr>
     = (Inr False,
        \<lparr>world = [],
         trace = [Returned ContinueIsVisible, Returned CaptchaIsVisible, Log NoImageCaptcha],
         has_context = True\<rparr>) \<and>
   block_rounds latin1 (table_bs4 example_pages) scripted [0, 1]
       \<lparr>world = [Text (ustr ''product''), Text (ustr ''Robot Check''), Says False, Says False],
        trace = [], has_context = True\<rparr>
     = (Inl RuntimeError,
        \<lparr>world = [],
         trace = [Returned Content, Returned Title, Log BlockedDetected,
                  Returned ContinueIsVisible, Returned CaptchaIsVisible, Log NoImageCaptcha],
         has_context = True\<rparr>)"
proof -
  let ?s = "\<lparr>world = [Says False, Says False], trace = [Returned Content, Returned Title],
             has_context = True\<rparr>"
  let ?init = "\<lparr>world = [Text (ustr ''product''), Text (ustr ''Robot Check''), Says False, Says False],
        trace = [], has_context = True\<rparr>"
  let ?t = "\<lparr>world = [Says False, Says False], trace = [], has_context = True\<rparr>"
  have cl: "classify latin1 (table_bs4 example_pages) scripted ?init = (Inr True, ?s)"
    by (simp add: classify_def prog_defs script_defs robot_check_blocked)
  have c1: "continue_is_visible scripted (world ?s) = (Inr False, [Says False])"
    and c2: "captcha_is_visible scripted [Says False] = (Inr False, [])"
    by (simp_all add: script_defs)
  have d1: "continue_is_visible scripted (world ?t) = (Inr False, [Says False])"
    by (simp add: script_defs)
  from nothing_to_clear_fails_the_attempt[OF c1 c2, of latin1 "table_bs4 example_pages"] cl
  have b: "block_rounds latin1 (table_bs4 example_pages) scripted [0, 1] ?init
     = (Inl RuntimeError,
        \<lparr>world = [],
         trace = [Returned Content, Returned Title, Log BlockedDetected,
                  Returned ContinueIsVisible, Returned CaptchaIsVisible, Log NoImageCaptcha],
         has_context = True\<rparr>)"
    by simp
  from nothing_to_clear_fails_the_attempt[OF d1 c2, of latin1 "table_bs4 example_pages"]
  show ?thesis using b by simp
qed

text \<open>
  Claim C6 as stated fails: with a robot-check title and nothing to click or solve, the
  first attempt is logged as failed right after the "no image CAPTCHA" line, its context
  is closed by the handler, and the worker backs off and retries.
\<close>

theorem nothing_to_clear_is_a_failure:
  "scrape_one latin1 (table_bs4 example_pages) scripted (ustr ''u'') (start script_nothing_to_clear)
     = (Inr [(''availability'', PStr (ustr ''En stock'')),
             (''average_stars'', PFloat (ustr ''4.5'')), (''total_reviews'', PInt 1234)],
        \<lparr>world = [],
         trace = [SleepJitter, Acquire, Returned NewContext, Returned NewPage,
                  Log (Navigating 1), Returned Goto, Returned Title, Raised AcceptWaitVisible,
                  Returned Content, Returned Title, Log BlockedDetected,
                  Returned ContinueIsVisible, Returned CaptchaIsVisible, Log NoImageCaptcha,
                  Release, Log (AttemptFailed 1), Returned Close, SleepBackoff,
                  Acquire, Returned NewContext, Returned NewPage,
                  Log (Navigating 2), Returned Goto, Returned Title, Raised AcceptWaitVisible,
                  Returned Content, Returned Title, Returned Content, Log Success,
                  Returned Close, Release],
         has_context = True\<rparr>)"
  unfolding scrape_one_def upt_1_4 script_nothing_to_clear_def script_success_def
  by (simp add: prog_defs worker_defs script_defs upt_0_2 amazon_not_error_title
        product_not_blocked product_availability product_reviews robot_check_blocked
        robot_not_error_title)

lemma emits_handle_blocking_page_no_detect:
  "emits (\<lambda>ev. ev \<noteq> Log BlockedDetected) (handle_blocking_page U B P)"
  unfolding handle_blocking_page_def
  by (intro emits_intros; (simp split: option.split)?; (intro allI impI conjI emits_intros)?; simp?)

lemma emits_classify: "emits (\<lambda>ev. ev \<noteq> Log BlockedDetected) (classify U B P)"
  unfolding classify_def by (intro emits_intros) simp_all

lemma emits_pause: "emits (\<lambda>ev. ev \<noteq> Log BlockedDetected) (pause P)"
  unfolding pause_def by (intro emits_intros) simp_all

lemma blocked_rounds_none: "list_all (\<lambda>ev. ev \<noteq> Log BlockedDetected) evs \<Longrightarrow> blocked_rounds evs = 0"
  by (induction evs) (auto simp: blocked_rounds_def)

lemma blocked_rounds_append: "blocked_rounds (xs @ ys) = blocked_rounds xs + blocked_rounds ys"
  by (simp add: blocked_rounds_def)

lemma clear_block_trace:
  assumes "clear_block U B P s = (r, s')"
  shows "\<exists>evs. trace s' = trace s @ evs \<and> blocked_rounds evs = 1"
proof -
  let ?s1 = "s\<lparr>trace := trace s @ [Log BlockedDetected]\<rparr>"
  have "handle_blocking_page U B P ?s1 = (r, s')"
    using assms by (simp add: clear_block_def bnd_def emit_def)
  from emitsD[OF emits_handle_blocking_page_no_detect this]
  obtain evs where "trace s' = trace ?s1 @ evs" "list_all (\<lambda>ev. ev \<noteq> Log BlockedDetected) evs"
    by blast
  then have "trace s' = trace s @ (Log BlockedDetected # evs)"
    "blocked_rounds (Log BlockedDetected # evs) = 1"
    using blocked_rounds_none[of evs] by (simp_all add: blocked_rounds_def)
  then show ?thesis by blast
qed

lemma block_rounds_bound:
  assumes "block_rounds U B P rounds s = (r, s')"
  shows "\<exists>evs. trace s' = trace s @ evs \<and> blocked_rounds evs \<le> length rounds"
  using assms
proof (induction rounds arbitrary: s)
  case Nil
  then show ?case by (simp add: raise_def blocked_rounds_def)
next
  case (Cons round rounds)
  obtain rc s1 where c: "classify U B P s = (rc, s1)" by (cases "classify U B P s")
  from emitsD[OF emits_classify c] obtain e1 where t1: "trace s1 = trace s @ e1"
    and b1: "blocked_rounds e1 = 0" using blocked_rounds_none by blast
  have done1: "s' = s1 \<Longrightarrow> ?case"
    using t1 b1 by (intro exI[of _ e1]) simp
  show ?case
  proof (cases rc)
    case (Inl e)
    then have "s' = s1" using Cons.prems c by (simp add: block_rounds_unfold del: block_rounds.simps)
    then show ?thesis by (rule done1)
  next
    case (Inr blocked)
    show ?thesis
    proof (cases blocked)
      case False
      then have "s' = s1" using Cons.prems c Inr by (simp add: block_rounds_unfold del: block_rounds.simps)
      then show ?thesis by (rule done1)
    next
      case True
      obtain rk s2 where k: "clear_block U B P s1 = (rk, s2)" by (cases "clear_block U B P s1")
      from clear_block_trace[OF k] obtain e2 where t2: "trace s2 = trace s1 @ e2"
        and b2: "blocked_rounds e2 = 1" by blast
      have done2: "s' = s2 \<Longrightarrow> ?thesis"
        using t1 b1 t2 b2 by (intro exI[of _ "e1 @ e2"]) (simp add: blocked_rounds_append)
      show ?thesis
      proof (cases rk)
        case (Inl e)
        then have "s' = s2"
          using Cons.prems c Inr True k by (simp add: block_rounds_unfold del: block_rounds.simps)
        then show ?thesis by (rule done2)
      next
        case (Inr cleared)
        note rk = this
        show ?thesis
        proof (cases cleared)
          case False
          then have "s' = s2"
            using Cons.prems c \<open>rc = Inr blocked\<close> True k rk
            by (simp add: block_rounds_unfold del: block_rounds.simps)
          then show ?thesis by (rule done2)
        next
          case cl: True
          obtain rp s3 where p: "pause P s2 = (rp, s3)" by (cases "pause P s2")
          from emitsD[OF emits_pause p] obtain e3 where t3: "trace s3 = trace s2 @ e3"
            and b3: "blocked_rounds e3 = 0" using blocked_rounds_none by blast
          show ?thesis
          proof (cases rp)
            case (Inl e)
            then have "s' = s3"
              using Cons.prems c \<open>rc = Inr blocked\<close> True k rk cl p
              by (simp add: block_rounds_unfold del: block_rounds.simps)
            then show ?thesis
              using t1 b1 t2 b2 t3 b3
              by (intro exI[of _ "e1 @ e2 @ e3"]) (simp add: blocked_rounds_append)
          next
            case (Inr u)
            then have "block_rounds U B P rounds s3 = (r, s')"
              using Cons.prems c \<open>rc = Inr blocked\<close> True k rk cl p
              by (simp add: block_rounds_unfold del: block_rounds.simps)
            from Cons.IH[OF this] obtain e4 where "trace s' = trace s3 @ e4"
              "blocked_rounds e4 \<le> length rounds" by blast
            then show ?thesis
              using t1 b1 t2 b2 t3 b3
              by (intro exI[of _ "e1 @ e2 @ e3 @ e4"]) (simp add: blocked_rounds_append)
          qed
        qed
      qed
    qed
  qed
qed

text \<open>
  The recovery loop of an attempt, path by path, started in any state \<open>s\<close>.  A round is:
  classify the page; if blocked, try to clear the block; if cleared, pause.
  \<^item> A first classification as not blocked ends the loop normally.
  \<^item> A failed clearing in the first round raises \<^verbatim>\<open>RuntimeError\<close> at once.
  \<^item> A successful clearing in the first round leads to a second classification, the
    second round; classified as not blocked there, the loop ends normally.
  \<^item> A failed clearing in the second round raises \<^verbatim>\<open>RuntimeError\<close> at once.
  \<^item> A page classified as blocked in both rounds raises \<^verbatim>\<open>RuntimeError\<close> after the
    second round, even when the second clearing succeeded: there is no third classification.
  \<^item> The loop ends normally (so that extraction follows) only from a round whose
    classification is not blocked.
  \<^item> However the loop ends, it has found the page blocked in at most 2 rounds.
\<close>

theorem block_recovery_runs_at_most_two_rounds:
  "(\<forall>s1. classify U B P s = (Inr False, s1) \<longrightarrow>
      block_rounds U B P [0..<2] s = (Inr (), s1)) \<and>
   (\<forall>s1 s2. classify U B P s = (Inr True, s1) \<and> clear_block U B P s1 = (Inr False, s2) \<longrightarrow>
      block_rounds U B P [0..<2] s = (Inl RuntimeError, s2)) \<and>
   (\<forall>s1 s2 s3 s4.
      classify U B P s = (Inr True, s1) \<and> clear_block U B P s1 = (Inr True, s2) \<and>
      pause P s2 = (Inr (), s3) \<and> classify U B P s3 = (Inr False, s4) \<longrightarrow>
      block_rounds U B P [0..<2] s = (Inr (), s4)) \<and>
   (\<forall>s1 s2 s3 s4 s5.
      classify U B P s = (Inr True, s1) \<and> clear_block U B P s1 = (Inr True, s2) \<and>
      pause P s2 = (Inr (), s3) \<and> classify U B P s3 = (Inr True, s4) \<and>
      clear_block U B P s4 = (Inr False, s5) \<longrightarrow>
      block_rounds U B P [0..<2] s = (Inl RuntimeError, s5)) \<and>
   (\<forall>s1 s2 s3 s4 s5 s6.
      classify U B P s = (Inr True, s1) \<and> clear_block U B P s1 = (Inr True, s2) \<and>
      pause P s2 = (Inr (), s3) \<and> classify U B P s3 = (Inr True, s4) \<and>
      clear_block U B P s4 = (Inr True, s5) \<and> pause P s5 = (Inr (), s6) \<longrightarrow>
      block_rounds U B P [0..<2] s = (Inl RuntimeError, s6)) \<and>
   (\<forall>s'. block_rounds U B P [0..<2] s = (Inr (), s') \<longrightarrow>
      classify U B P s = (Inr False, s') \<or>
      (\<exists>s1 s2 s3. classify U B P s = (Inr True, s1) \<and> clear_block U B P s1 = (Inr True, s2) \<and>
         pause P s2 = (Inr (), s3) \<and> classify U B P s3 = (Inr False, s'))) \<and>
   (\<forall>r s'. block_rounds U B P [0..<2] s = (r, s') \<longrightarrow>
      (\<exists>evs. trace s' = trace s @ evs \<and> blocked_rounds evs \<le> 2))"
proof -
  have two: "block_rounds U B P [0..<2] s =
     (case classify U B P s of
        (Inl e, s1) \<Rightarrow> (Inl e, s1)
      | (Inr blocked, s1) \<Rightarrow>
          if blocked
          then (case clear_block U B P s1 of
                  (Inl e, s2) \<Rightarrow> (Inl e, s2)
                | (Inr cleared, s2) \<Rightarrow>
                    if cleared
                    then (case pause P s2 of
                            (Inl e, s3) \<Rightarrow> (Inl e, s3)
                          | (Inr u, s3) \<Rightarrow>
                             (case classify U B P s3 of
                                (Inl e, s4) \<Rightarrow> (Inl e, s4)
                              | (Inr blocked', s4) \<Rightarrow>
                                  if blocked'
                                  then (case clear_block U B P s4 of
                                          (Inl e, s5) \<Rightarrow> (Inl e, s5)
                                        | (Inr cleared', s5) \<Rightarrow>
                                            if cleared'
                                            then (case pause P s5 of
                                                    (Inl e, s6) \<Rightarrow> (Inl e, s6)
                                                  | (Inr u, s6) \<Rightarrow> (Inl RuntimeError, s6))
                                            else (Inl RuntimeError, s5))
                                  else (Inr (), s4)))
                    else (Inl RuntimeError, s2))
          else (Inr (), s1))"
    unfolding upt_0_2 block_rounds_unfold by (simp add: raise_def split: prod.splits sum.splits)
  have c1: "\<forall>s1. classify U B P s = (Inr False, s1) \<longrightarrow> block_rounds U B P [0..<2] s = (Inr (), s1)"
    unfolding two by simp
  have c2: "\<forall>s1 s2. classify U B P s = (Inr True, s1) \<and> clear_block U B P s1 = (Inr False, s2) \<longrightarrow>
      block_rounds U B P [0..<2] s = (Inl RuntimeError, s2)"
    unfolding two by simp
  have c3: "\<forall>s1 s2 s3 s4.
      classify U B P s = (Inr True, s1) \<and> clear_block U B P s1 = (Inr True, s2) \<and>
      pause P s2 = (Inr (), s3) \<and> classify U B P s3 = (Inr False, s4) \<longrightarrow>
      block_rounds U B P [0..<2] s = (Inr (), s4)"
    unfolding two by simp
  have c4: "\<forall>s1 s2 s3 s4 s5.
      classify U B P s = (Inr True, s1) \<and> clear_block U B P s1 = (Inr True, s2) \<and>
      pause P s2 = (Inr (), s3) \<and> classify U B P s3 = (Inr True, s4) \<and>
      clear_block U B P s4 = (Inr False, s5) \<longrightarrow>
      block_rounds U B P [0..<2] s = (Inl RuntimeError, s5)"
    unfolding two by simp
  have c5: "\<forall>s1 s2 s3 s4 s5 s6.
      classify U B P s = (Inr True, s1) \<and> clear_block U B P s1 = (Inr True, s2) \<and>
      pause P s2 = (Inr (), s3) \<and> classify U B P s3 = (Inr True, s4) \<and>
      clear_block U B P s4 = (Inr True, s5) \<and> pause P s5 = (Inr (), s6) \<longrightarrow>
      block_rounds U B P [0..<2] s = (Inl RuntimeError, s6)"
    unfolding two by simp
  have c6: "\<forall>s'. block_rounds U B P [0..<2] s = (Inr (), s') \<longrightarrow>
      classify U B P s = (Inr False, s') \<or>
      (\<exists>s1 s2 s3. classify U B P s = (Inr True, s1) \<and> clear_block U B P s1 = (Inr True, s2) \<and>
         pause P s2 = (Inr (), s3) \<and> classify U B P s3 = (Inr False, s'))"
    unfolding two by (auto split: prod.splits sum.splits if_splits)
  have c7: "\<forall>r s'. block_rounds U B P [0..<2] s = (r, s') \<longrightarrow>
      (\<exists>evs. trace s' = trace s @ evs \<and> blocked_rounds evs \<le> 2)"
    using block_rounds_bound[of U B P "[0..<2]" s] by simp
  show ?thesis using c1 c2 c3 c4 c5 c6 c7 by blast
qed

theorem block_recovery_runs_at_most_two_rounds_witness:
  "block_rounds latin1 (table_bs4 example_pages) scripted [0..<2]
       \<lparr>world = script_continue_then_clear, trace = [], has_context = True\<rparr>
     = (Inr (),
        \<lparr>world = [],
         trace = [Returned Content, Returned Title, Log BlockedDetected,
                  Returned ContinueIsVisible, Log SimpleCheck, Returned ContinueClick,
                  Returned WaitForLoadState, Returned WaitForTimeout,
                  Returned Content, Returned Title],
         has_context = True\<rparr>) \<and>
   blocked_rounds [Returned Content, Returned Title, Log BlockedDetected,
                  Returned ContinueIsVisible, Log SimpleCheck, Returned ContinueClick,
                  Returned WaitForLoadState, Returned WaitForTimeout,
                  Returned Content, Returned Title] \<le> 2"
proof -
  let ?B = "table_bs4 example_pages"
  let ?init = "\<lparr>world = script_continue_then_clear, trace = [], has_context = True\<rparr>"
  let ?a = "\<lparr>world = [Says True, Returns, Returns, Returns,
                        Text (ustr ''product''), Text (ustr ''Amazon.fr'')],
             trace = [Returned Content, Returned Title], has_context = True\<rparr>"
  let ?b = "\<lparr>world = [Returns, Text (ustr ''product''), Text (ustr ''Amazon.fr'')],
             trace = [Returned Content, Returned Title, Log BlockedDetected,
                      Returned ContinueIsVisible, Log SimpleCheck, Returned ContinueClick,
                      Returned WaitForLoadState],
             has_context = True\<rparr>"
  let ?c = "\<lparr>world = [Text (ustr ''product''), Text (ustr ''Amazon.fr'')],
             trace = [Returned Content, Returned Title, Log BlockedDetected,
                      Returned ContinueIsVisible, Log SimpleCheck, Returned ContinueClick,
                      Returned WaitForLoadState, Returned WaitForTimeout],
             has_context = True\<rparr>"
  let ?d = "\<lparr>world = [],
             trace = [Returned Content, Returned Title, Log BlockedDetected,
                      Returned ContinueIsVisible, Log SimpleCheck, Returned ContinueClick,
                      Returned WaitForLoadState, Returned WaitForTimeout,
                      Returned Content, Returned Title],
             has_context = True\<rparr>"
  have h1: "classify latin1 ?B scripted ?init = (Inr True, ?a)"
    by (simp add: classify_def prog_defs script_defs script_continue_then_clear_def captcha_page_blocked)
  have h2: "clear_block latin1 ?B scripted ?a = (Inr True, ?b)"
    by (simp add: clear_block_def handle_blocking_page_def prog_defs script_defs)
  have h3: "pause scripted ?b = (Inr (), ?c)"
    by (simp add: pause_def prog_defs script_defs)
  have h4: "classify latin1 ?B scripted ?c = (Inr False, ?d)"
    by (simp add: classify_def prog_defs script_defs product_not_blocked)
  from block_recovery_runs_at_most_two_rounds[of latin1 ?B scripted ?init] h1 h2 h3 h4
  have "block_rounds latin1 ?B scripted [0..<2] ?init = (Inr (), ?d)"
    by blast
  then show ?thesis by (simp add: blocked_rounds_def)
qed

text \<open>
  Claim C5 at an input where the code breaks it.  The page is classified as blocked in
  the first round and the click on the continue button goes through; it is classified as
  blocked again in the second round, and this time \<^verbatim>\<open>handle_blocking_page\<close> solves the
  image CAPTCHA, reads the page after the submission, finds it not blocked and logs that
  the CAPTCHA is solved (lines 192 to 196).  The clearing of the second round has
  succeeded, but no classification follows it: the \<^verbatim>\<open>for\<close> loop is exhausted and its
  \<^verbatim>\<open>else\<close> branch raises \<^verbatim>\<open>RuntimeError\<close> (line 245), so the attempt fails on a page that
  was last seen not blocked.
\<close>

theorem cleared_in_second_round_still_fails:
  "block_rounds latin1 (table_bs4 example_pages) scripted [0..<2]
       \<lparr>world = script_solved_in_second_round, trace = [], has_context = True\<rparr>
     = (Inl RuntimeError,
        \<lparr>world = [],
         trace = [Returned Content, Returned Title, Log BlockedDetected,
                  Returned ContinueIsVisible, Log SimpleCheck, Returned ContinueClick,
                  Returned WaitForLoadState, Returned WaitForTimeout,
                  Returned Content, Returned Title, Log BlockedDetected,
                  Returned ContinueIsVisible, Returned CaptchaIsVisible, Log ImageCaptcha,
                  Returned CaptchaGetSrc, Returned CaptchaSolve, Log OcrSolution,
                  Returned CaptchaFill, Returned SubmitClick, Returned WaitForLoadState,
                  Returned Content, Returned Title, Log CaptchaSolved,
                  Returned WaitForTimeout],
         has_context = True\<rparr>)"
  unfolding upt_0_2 script_solved_in_second_round_def
  by (simp add: handle_blocking_page_def prog_defs script_defs captcha_page_blocked
        product_not_blocked)
section \<open>Proofs: classification of a page\<close>

lemma lower_prefix_match:
  "list_all (iscased U) pat \<Longrightarrow> lower_prefix U pat s \<Longrightarrow> match_here U pat s"
proof (induction pat arbitrary: s)
  case Nil
  then show ?case by simp
next
  case (Cons p ps)
  then show ?case by (cases s) (auto simp: literal_ignore_def)
qed

lemma contains_search:
  assumes "a \<in> set alts" and "list_all (iscased U) a"
  shows "contains_ignoring_case U a s \<Longrightarrow> re_search_ignorecase U alts s"
proof (induction s)
  case Nil
  then have "match_here U a []" using lower_prefix_match[OF assms(2)] by simp
  then show ?case using assms(1) by (auto simp: list_ex_iff)
next
  case (Cons c cs)
  from Cons.prems have "lower_prefix U a (c # cs) \<or> contains_ignoring_case U a cs" by simp
  then show ?case
  proof
    assume "lower_prefix U a (c # cs)"
    then have "match_here U a (c # cs)" using lower_prefix_match[OF assms(2)] by blast
    then show ?thesis using assms(1) by (auto simp: list_ex_iff)
  next
    assume "contains_ignoring_case U a cs"
    then show ?thesis using Cons.IH by simp
  qed
qed

lemma is_page_blocked_calls_pure:
  assumes "\<And>p t s. re_search L p t s = (Inr (re_search_ignorecase U p t), s)"
    and "\<And>h s. bs_parse L h s = (Inr (BeautifulSoup B h), s)"
    and "\<And>e n a p s. bs_find L e n a p s = (Inr (soup_find U B e n a p), s)"
  shows "is_page_blocked_calls L html page_title s = (Inr (is_page_blocked U B html page_title), s)"
  by (simp add: is_page_blocked_calls_def is_page_blocked_def bnd_def ret_def assms Let_def)

lemma verify_title_matches:
  assumes "list_all (iscased U) (ustr ''verify'')"
    and "list_all (iscased U) (ustr (''v'' @ [CHR 0xE9] @ ''rification''))"
    and "contains_ignoring_case U (ustr ''verify'') page_title \<or>
         contains_ignoring_case U (ustr (''v'' @ [CHR 0xE9] @ ''rification'')) page_title"
  shows "re_search_ignorecase U CAPTCHA_RE page_title"
  using assms(3)
proof
  assume "contains_ignoring_case U (ustr ''verify'') page_title"
  then show ?thesis
    using assms(1) by (intro contains_search[of "ustr ''verify''"]) (simp_all add: CAPTCHA_RE_def)
next
  assume "contains_ignoring_case U (ustr (''v'' @ [CHR 0xE9] @ ''rification'')) page_title"
  then show ?thesis
    using assms(2)
    by (intro contains_search[of "ustr (''v'' @ [CHR 0xE9] @ ''rification'')"])
       (simp_all add: CAPTCHA_RE_def)
qed

text \<open>
  Claim C7.  Purity: \<open>is_page_blocked_calls\<close> is the source function with its library
  calls (the regular-expression search, the parser and its \<^verbatim>\<open>find\<close>) as operations that
  could read or change the state or raise.  Let these calls be what the runtime makes
  them: each returns the value that the tables \<open>U\<close> and the parser \<open>B\<close> determine and leaves
  the state alone.  Then, called on \<open>html\<close> and \<open>page_title\<close> in any state \<open>s\<close>, the
  function returns (it does not raise), its value is \<open>is_page_blocked U B html page_title\<close>,
  the same in every state, and the state after the call is \<open>s\<close>: nothing is logged, no
  call is made on the browser, nothing is assigned.  So two calls on the same HTML and
  title, in any two states and in particular one after the other, give the same
  classification.

  Titles: whatever the HTML, a title that contains \<open>verify\<close> or \<open>v\<^verbatim>\<open>\xe9\<close>rification\<close>,
  letters compared by their lower case, is classified as blocked, by the pure function
  and so by the function over the calls.  The hypothesis on \<open>iscased\<close> says of the
  runtime's table what holds of Unicode: the letters of the two words are cased.
\<close>

theorem is_page_blocked_pure_and_verify_blocked:
  "((\<forall>p t s. re_search L p t s = (Inr (re_search_ignorecase U p t), s)) \<and>
    (\<forall>h s. bs_parse L h s = (Inr (BeautifulSoup B h), s)) \<and>
    (\<forall>e n a p s. bs_find L e n a p s = (Inr (soup_find U B e n a p), s)) \<longrightarrow>
      (\<forall>s. is_page_blocked_calls L html page_title s
              = (Inr (is_page_blocked U B html page_title), s)) \<and>
      (\<forall>s1 s2. fst (is_page_blocked_calls L html page_title s1)
                 = fst (is_page_blocked_calls L html page_title s2)) \<and>
      (\<forall>s. bnd (is_page_blocked_calls L html page_title) (\<lambda>first.
             bnd (is_page_blocked_calls L html page_title) (\<lambda>second.
             ret (first = second))) s = (Inr True, s)) \<and>
      (list_all (iscased U) (ustr ''verify'') \<and>
       list_all (iscased U) (ustr (''v'' @ [CHR 0xE9] @ ''rification'')) \<and>
       (contains_ignoring_case U (ustr ''verify'') page_title \<or>
        contains_ignoring_case U (ustr (''v'' @ [CHR 0xE9] @ ''rification'')) page_title) \<longrightarrow>
          (\<forall>s. is_page_blocked_calls L html page_title s = (Inr True, s)))) \<and>
   (list_all (iscased U) (ustr ''verify'') \<and>
    list_all (iscased U) (ustr (''v'' @ [CHR 0xE9] @ ''rification'')) \<and>
    (contains_ignoring_case U (ustr ''verify'') page_title \<or>
     contains_ignoring_case U (ustr (''v'' @ [CHR 0xE9] @ ''rification'')) page_title) \<longrightarrow>
       is_page_blocked U B html page_title)"
proof -
  have titles: "list_all (iscased U) (ustr ''verify'') \<and>
    list_all (iscased U) (ustr (''v'' @ [CHR 0xE9] @ ''rification'')) \<and>
    (contains_ignoring_case U (ustr ''verify'') page_title \<or>
     contains_ignoring_case U (ustr (''v'' @ [CHR 0xE9] @ ''rification'')) page_title) \<longrightarrow>
       is_page_blocked U B html page_title"
  proof
    assume a: "list_all (iscased U) (ustr ''verify'') \<and>
      list_all (iscased U) (ustr (''v'' @ [CHR 0xE9] @ ''rification'')) \<and>
      (contains_ignoring_case U (ustr ''verify'') page_title \<or>
       contains_ignoring_case U (ustr (''v'' @ [CHR 0xE9] @ ''rification'')) page_title)"
    then have "re_search_ignorecase U CAPTCHA_RE page_title"
      using verify_title_matches[of U page_title] by blast
    then show "is_page_blocked U B html page_title" by (simp add: is_page_blocked_def)
  qed
  have pure: "(\<forall>p t s. re_search L p t s = (Inr (re_search_ignorecase U p t), s)) \<and>
    (\<forall>h s. bs_parse L h s = (Inr (BeautifulSoup B h), s)) \<and>
    (\<forall>e n a p s. bs_find L e n a p s = (Inr (soup_find U B e n a p), s)) \<longrightarrow>
      (\<forall>s. is_page_blocked_calls L html page_title s
              = (Inr (is_page_blocked U B html page_title), s))"
    using is_page_blocked_calls_pure[of L U B html page_title] by blast
  show ?thesis
  proof (intro conjI impI)
    assume a: "(\<forall>p t s. re_search L p t s = (Inr (re_search_ignorecase U p t), s)) \<and>
      (\<forall>h s. bs_parse L h s = (Inr (BeautifulSoup B h), s)) \<and>
      (\<forall>e n a p s. bs_find L e n a p s = (Inr (soup_find U B e n a p), s))"
    with pure have p: "\<And>s. is_page_blocked_calls L html page_title s
              = (Inr (is_page_blocked U B html page_title), s)" by blast
    show "\<forall>s. is_page_blocked_calls L html page_title s
              = (Inr (is_page_blocked U B html page_title), s)" using p by blast
    show "\<forall>s1 s2. fst (is_page_blocked_calls L html page_title s1)
                 = fst (is_page_blocked_calls L html page_title s2)" by (simp add: p)
    show "\<forall>s. bnd (is_page_blocked_calls L html page_title) (\<lambda>first.
             bnd (is_page_blocked_calls L html page_title) (\<lambda>second.
             ret (first = second))) s = (Inr True, s)" by (simp add: bnd_def ret_def p)
    assume "list_all (iscased U) (ustr ''verify'') \<and>
       list_all (iscased U) (ustr (''v'' @ [CHR 0xE9] @ ''rification'')) \<and>
       (contains_ignoring_case U (ustr ''verify'') page_title \<or>
        contains_ignoring_case U (ustr (''v'' @ [CHR 0xE9] @ ''rification'')) page_title)"
    with titles have "is_page_blocked U B html page_title" by blast
    then show "\<forall>s. is_page_blocked_calls L html page_title s = (Inr True, s)" by (simp add: p)
  next
    assume "list_all (iscased U) (ustr ''verify'') \<and>
       list_all (iscased U) (ustr (''v'' @ [CHR 0xE9] @ ''rification'')) \<and>
       (contains_ignoring_case U (ustr ''verify'') page_title \<or>
        contains_ignoring_case U (ustr (''v'' @ [CHR 0xE9] @ ''rification'')) page_title)"
    with titles show "is_page_blocked U B html page_title" by blast
  qed
qed

theorem is_page_blocked_pure_and_verify_blocked_witness:
  "is_page_blocked_calls (pure_calls latin1 (table_bs4 example_pages))
       (ustr ''product'') (ustr ''Please VERIFY'') (start script_success)
     = (Inr True, start script_success) \<and>
   is_page_blocked_calls (pure_calls latin1 (table_bs4 example_pages))
       (ustr ''product'') (ustr ''Amazon.fr'') (start script_success)
     = (Inr False, start script_success) \<and>
   is_page_blocked latin1 (table_bs4 example_pages) (ustr ''product'') (ustr ''Please VERIFY'') \<and>
   is_page_blocked latin1 (table_bs4 example_pages) (ustr ''product'')
     (ustr (''V'' @ [CHR 0xC9] @ ''RIFICATION''))"
proof -
  let ?B = "table_bs4 example_pages"
  let ?L = "pure_calls latin1 ?B :: (reply list, node) pycalls"
  have lib: "(\<forall>p t s. re_search ?L p t s = (Inr (re_search_ignorecase latin1 p t), s)) \<and>
    (\<forall>h s. bs_parse ?L h s = (Inr (BeautifulSoup ?B h), s)) \<and>
    (\<forall>e n a p s. bs_find ?L e n a p s = (Inr (soup_find latin1 ?B e n a p), s))"
    by (simp add: pure_calls_def ret_def)
  have cased: "list_all (iscased latin1) (ustr ''verify'') \<and>
               list_all (iscased latin1) (ustr (''v'' @ [CHR 0xE9] @ ''rification''))"
    by (simp add: lib_defs)
  have f1: "contains_ignoring_case latin1 (ustr ''verify'') (ustr ''Please VERIFY'') \<or>
            contains_ignoring_case latin1 (ustr (''v'' @ [CHR 0xE9] @ ''rification'')) (ustr ''Please VERIFY'')"
    by (simp add: lib_defs)
  have f2: "contains_ignoring_case latin1 (ustr ''verify'') (ustr (''V'' @ [CHR 0xC9] @ ''RIFICATION'')) \<or>
            contains_ignoring_case latin1 (ustr (''v'' @ [CHR 0xE9] @ ''rification''))
              (ustr (''V'' @ [CHR 0xC9] @ ''RIFICATION''))"
    by (simp add: lib_defs)
  from is_page_blocked_pure_and_verify_blocked[of ?L latin1 ?B "ustr ''product''" "ustr ''Please VERIFY''"]
       lib cased f1
  have a: "is_page_blocked_calls ?L (ustr ''product'') (ustr ''Please VERIFY'') (start script_success)
            = (Inr True, start script_success)"
    and b: "is_page_blocked latin1 ?B (ustr ''product'') (ustr ''Please VERIFY'')"
    by blast+
  from is_page_blocked_pure_and_verify_blocked[of ?L latin1 ?B "ustr ''product''" "ustr ''Amazon.fr''"]
       lib product_not_blocked
  have c: "is_page_blocked_calls ?L (ustr ''product'') (ustr ''Amazon.fr'') (start script_success)
            = (Inr False, start script_success)"
    by simp
  from is_page_blocked_pure_and_verify_blocked[of ?L latin1 ?B "ustr ''product''"
         "ustr (''V'' @ [CHR 0xC9] @ ''RIFICATION'')"] cased f2
  have d: "is_page_blocked latin1 ?B (ustr ''product'') (ustr (''V'' @ [CHR 0xC9] @ ''RIFICATION''))"
    by blast
  show ?thesis using a b c d by simp
qed
section \<open>Proofs: what escapes the retry loop\<close>

lemma close_if_context_cases:
  assumes "(if has_context s then call Close (close P) s else ret () s) = (rc, s3)"
  shows "(rc = Inr () \<and> (trace s3 = trace s \<or> trace s3 = trace s @ [Returned Close])) \<or>
         (\<exists>e w'. rc = Inl e \<and> close P (world s) = (Inl e, w') \<and> trace s3 = trace s @ [Raised Close])"
proof (cases "has_context s")
  case False
  then show ?thesis using assms by (auto simp: ret_def)
next
  case True
  obtain x w' where c: "close P (world s) = (x, w')" by (cases "close P (world s)")
  show ?thesis
  proof (cases x)
    case (Inl e)
    then show ?thesis using assms True c by (auto simp: call_def)
  next
    case (Inr u)
    then show ?thesis using assms True c by (auto simp: call_def)
  qed
qed

text \<open>One pass of the retry loop, by the way it ends.\<close>

lemma attempts_Cons_ways:
  assumes "attempts U B P url (a # rest) s = (r, s')"
  shows "\<exists>evs. list_all inner_event evs \<and>
           ((\<exists>x. r = Inr x \<and> trace s' = trace s @ Acquire # evs @ [Release]) \<or>
            (\<exists>cevs. (cevs = [] \<or> cevs = [Returned Close]) \<and>
               ((\<exists>e w w'. r = Inl e \<and> close P w = (Inl e, w') \<and>
                    trace s' = trace s @ Acquire # evs @ [Release, Log (AttemptFailed a)] @ [Raised Close]) \<or>
                (\<not> a < MAX_RETRIES \<and> r = Inr (sentinel_result error_sentinel) \<and>
                    trace s' = trace s @ Acquire # evs @ [Release, Log (AttemptFailed a)] @ cevs @ [Log AllFailed]) \<or>
                (\<exists>s4. a < MAX_RETRIES \<and> attempts U B P url rest s4 = (r, s') \<and>
                    trace s4 = trace s @ Acquire # evs @ [Release, Log (AttemptFailed a)] @ cevs @ [SleepBackoff]))))"
proof -
  let ?init = "s\<lparr>has_context := False\<rparr>"
  obtain r1 s1' where w: "with_sem (attempt_body U B P url a) ?init = (r1, s1')"
    by (cases "with_sem (attempt_body U B P url a) ?init")
  from with_sem_trace[OF emits_attempt_body w]
  obtain evs s1 where s1': "s1' = s1\<lparr>trace := trace s1 @ [Release]\<rparr>"
    and t1: "trace s1 = trace s @ Acquire # evs" and q1: "list_all inner_event evs"
    by auto
  have t1': "trace s1' = trace s @ Acquire # evs @ [Release]" using s1' t1 by simp
  show ?thesis
  proof (cases r1)
    case (Inr x)
    then have "r = Inr x" "s' = s1'"
      using assms w by (simp_all add: bnd_def catch_def set_context_def)
    then show ?thesis using t1' q1 by blast
  next
    case (Inl e0)
    let ?s2 = "s1'\<lparr>trace := trace s1' @ [Log (AttemptFailed a)]\<rparr>"
    obtain rc s3 where c: "(if has_context ?s2 then call Close (close P) ?s2 else ret () ?s2) = (rc, s3)"
      by (cases "if has_context ?s2 then call Close (close P) ?s2 else ret () ?s2")
    have unf: "attempts U B P url (a # rest) s =
       (case rc of Inl e' \<Rightarrow> (Inl e', s3)
        | Inr u \<Rightarrow> (if a < MAX_RETRIES
                    then attempts U B P url rest (s3\<lparr>trace := trace s3 @ [SleepBackoff]\<rparr>)
                    else (Inr (sentinel_result error_sentinel), s3\<lparr>trace := trace s3 @ [Log AllFailed]\<rparr>)))"
      using w Inl c by (simp add: bnd_def catch_def set_context_def emit_def ret_def split: sum.splits)
    from close_if_context_cases[OF c]
    show ?thesis
    proof
      assume "\<exists>e w'. rc = Inl e \<and> close P (world ?s2) = (Inl e, w') \<and> trace s3 = trace ?s2 @ [Raised Close]"
      then obtain e w' where rc: "rc = Inl e" and cl: "close P (world ?s2) = (Inl e, w')"
        and t3: "trace s3 = trace ?s2 @ [Raised Close]" by blast
      have "r = Inl e" "s' = s3" using unf assms rc by simp_all
      then have "trace s' = trace s @ Acquire # evs @ [Release, Log (AttemptFailed a)] @ [Raised Close]"
        using t3 t1' by simp
      then show ?thesis using q1 \<open>r = Inl e\<close> cl by blast
    next
      assume "rc = Inr () \<and> (trace s3 = trace ?s2 \<or> trace s3 = trace ?s2 @ [Returned Close])"
      then obtain cevs where rc: "rc = Inr ()" and cv: "cevs = [] \<or> cevs = [Returned Close]"
        and t3: "trace s3 = trace ?s2 @ cevs" by auto
      have t3': "trace s3 = trace s @ Acquire # evs @ [Release, Log (AttemptFailed a)] @ cevs"
        using t3 t1' by simp
      show ?thesis
      proof (cases "a < MAX_RETRIES")
        case True
        then have "attempts U B P url rest (s3\<lparr>trace := trace s3 @ [SleepBackoff]\<rparr>) = (r, s')"
          using unf assms rc by simp
        moreover have "trace (s3\<lparr>trace := trace s3 @ [SleepBackoff]\<rparr>)
            = trace s @ Acquire # evs @ [Release, Log (AttemptFailed a)] @ cevs @ [SleepBackoff]"
          using t3' by simp
        ultimately show ?thesis using q1 cv True by blast
      next
        case False
        then have "r = Inr (sentinel_result error_sentinel)"
          "s' = s3\<lparr>trace := trace s3 @ [Log AllFailed]\<rparr>" using unf assms rc by simp_all
        then have "trace s' = trace s @ Acquire # evs @ [Release, Log (AttemptFailed a)] @ cevs @ [Log AllFailed]"
          using t3' by simp
        then show ?thesis using q1 cv False \<open>r = Inr (sentinel_result error_sentinel)\<close> by blast
      qed
    qed
  qed
qed

text \<open>
  Claim C2 at an input where the code breaks it.  The navigation of the first attempt
  times out; the handler of line 256 logs the failure and closes the context (line 258),
  and that \<^verbatim>\<open>close()\<close> raises.  The handler is not itself guarded, so the exception
  leaves \<^verbatim>\<open>scrape_one\<close>: the worker returns no result.
\<close>

theorem close_failure_in_handler_escapes:
  "scrape_one latin1 (table_bs4 example_pages) scripted (ustr ''u'') (start script_timeout_close_fails)
     = (Inl PlaywrightError,
        \<lparr>world = [],
         trace = [SleepJitter, Acquire, Returned NewContext, Returned NewPage, Log (Navigating 1),
                  Raised Goto, Release, Log (AttemptFailed 1), Raised Close],
         has_context = True\<rparr>)"
  unfolding scrape_one_def upt_1_4 script_timeout_close_fails_def
  by (simp add: prog_defs worker_defs script_defs)

lemma inner_not_all_failed: "list_all inner_event evs \<Longrightarrow> Log AllFailed \<notin> set evs"
  by (induction evs) auto

lemma attempts_contained:
  assumes "attempts U B P url as s = (r, s')" and "Log AllFailed \<notin> set (trace s)"
  shows "(\<forall>e. r = Inl e \<longrightarrow> last (trace s') = Raised Close \<and> (\<exists>w w'. close P w = (Inl e, w'))) \<and>
         (Log AllFailed \<in> set (trace s') \<longrightarrow> r = Inr (sentinel_result error_sentinel))"
  using assms
proof (induction as arbitrary: s)
  case Nil
  then show ?case by (auto simp: ret_def)
next
  case (Cons a rest)
  from attempts_Cons_ways[OF Cons.prems(1)] obtain evs where inner: "list_all inner_event evs"
    and ways:
      "(\<exists>x. r = Inr x \<and> trace s' = trace s @ Acquire # evs @ [Release]) \<or>
       (\<exists>cevs. (cevs = [] \<or> cevs = [Returned Close]) \<and>
          ((\<exists>e w w'. r = Inl e \<and> close P w = (Inl e, w') \<and>
               trace s' = trace s @ Acquire # evs @ [Release, Log (AttemptFailed a)] @ [Raised Close]) \<or>
           (\<not> a < MAX_RETRIES \<and> r = Inr (sentinel_result error_sentinel) \<and>
               trace s' = trace s @ Acquire # evs @ [Release, Log (AttemptFailed a)] @ cevs @ [Log AllFailed]) \<or>
           (\<exists>s4. a < MAX_RETRIES \<and> attempts U B P url rest s4 = (r, s') \<and>
               trace s4 = trace s @ Acquire # evs @ [Release, Log (AttemptFailed a)] @ cevs @ [SleepBackoff])))"
    by blast
  have na: "Log AllFailed \<notin> set evs" using inner by (rule inner_not_all_failed)
  from ways consider
      (returned) x where "r = Inr x" "trace s' = trace s @ Acquire # evs @ [Release]"
    | (escaped) e w w' where "r = Inl e" "close P w = (Inl e, w')"
        "trace s' = trace s @ Acquire # evs @ [Release, Log (AttemptFailed a)] @ [Raised Close]"
    | (exhausted) cevs where "cevs = [] \<or> cevs = [Returned Close]"
        "r = Inr (sentinel_result error_sentinel)"
        "trace s' = trace s @ Acquire # evs @ [Release, Log (AttemptFailed a)] @ cevs @ [Log AllFailed]"
    | (again) cevs s4 where "cevs = [] \<or> cevs = [Returned Close]"
        "attempts U B P url rest s4 = (r, s')"
        "trace s4 = trace s @ Acquire # evs @ [Release, Log (AttemptFailed a)] @ cevs @ [SleepBackoff]"
    by blast
  then show ?case
  proof cases
    case returned
    then show ?thesis using na Cons.prems(2) by auto
  next
    case escaped
    then show ?thesis using na Cons.prems(2) by auto
  next
    case exhausted
    then show ?thesis by simp
  next
    case again
    have "Log AllFailed \<notin> set (trace s4)" using again(1,3) na Cons.prems(2) by auto
    from Cons.IH[OF again(2) this] show ?thesis .
  qed
qed

text \<open>
  What does hold of the worker, whatever the browser does.  It makes at most
  \<open>MAX_RETRIES\<close> attempts.  The only exception that leaves it is one raised by the
  \<^verbatim>\<open>context.close()\<close> of the handler, as its last event.  When it logs that all attempts
  failed, it returns the \<open>Error\<close> sentinel in all three fields.  So with a
  \<^verbatim>\<open>close()\<close> that never raises, the worker always returns a result.
\<close>

theorem worker_contains_all_but_handler_close:
  assumes "scrape_one U B P url (start w) = (r, s')"
  shows "attempts_made (trace s') \<le> MAX_RETRIES \<and>
         (\<forall>e. r = Inl e \<longrightarrow> last (trace s') = Raised Close \<and> (\<exists>w w'. close P w = (Inl e, w'))) \<and>
         (Log AllFailed \<in> set (trace s') \<longrightarrow> r = Inr (sentinel_result error_sentinel)) \<and>
         ((\<forall>w. \<exists>w'. close P w = (Inr (), w')) \<longrightarrow> (\<exists>x. r = Inr x))"
proof -
  let ?s = "(start w)\<lparr>trace := trace (start w) @ [SleepJitter]\<rparr>"
  have a: "attempts U B P url [1..<MAX_RETRIES + 1] ?s = (r, s')"
    using assms by (simp add: scrape_one_def bnd_def emit_def)
  have len: "length [1..<MAX_RETRIES + 1] = MAX_RETRIES" by (simp add: upt_1_4 MAX_RETRIES_def)
  from attempts_trace[OF a] obtain evs where "trace s' = trace ?s @ evs"
    "attempts_made evs \<le> length [1..<MAX_RETRIES + 1]" by blast
  then have n: "attempts_made (trace s') \<le> MAX_RETRIES"
    unfolding len by (simp add: start_def attempts_made_def)
  have "Log AllFailed \<notin> set (trace ?s)" by (simp add: start_def)
  from attempts_contained[OF a this]
  have c: "\<forall>e. r = Inl e \<longrightarrow> last (trace s') = Raised Close \<and> (\<exists>w w'. close P w = (Inl e, w'))"
    and x: "Log AllFailed \<in> set (trace s') \<longrightarrow> r = Inr (sentinel_result error_sentinel)"
    by blast+
  have "(\<forall>w. \<exists>w'. close P w = (Inr (), w')) \<longrightarrow> (\<exists>x. r = Inr x)"
  proof
    assume ok: "\<forall>w. \<exists>w'. close P w = (Inr (), w')"
    show "\<exists>x. r = Inr x"
    proof (cases r)
      case (Inl e)
      with c obtain w0 w' where "close P w0 = (Inl e, w')" by blast
      with ok show ?thesis by (metis Inl_Inr_False Pair_inject)
    next
      case (Inr x)
      then show ?thesis by blast
    qed
  qed
  then show ?thesis using n c x by blast
qed

theorem worker_contains_all_but_handler_close_witness:
  "attempts_made [SleepJitter, Acquire, Returned NewContext, Returned NewPage, Log (Navigating 1),
                  Raised Goto, Release, Log (AttemptFailed 1), Raised Close] \<le> MAX_RETRIES \<and>
   last [SleepJitter, Acquire, Returned NewContext, Returned NewPage, Log (Navigating 1),
         Raised Goto, Release, Log (AttemptFailed 1), Raised Close] = Raised Close \<and>
   (\<exists>w w'. close scripted w = (Inl PlaywrightError, w'))"
proof -
  have e: "scrape_one latin1 (table_bs4 example_pages) scripted (ustr ''u'')
             (start script_timeout_close_fails)
     = (Inl PlaywrightError,
        \<lparr>world = [],
         trace = [SleepJitter, Acquire, Returned NewContext, Returned NewPage, Log (Navigating 1),
                  Raised Goto, Release, Log (AttemptFailed 1), Raised Close],
         has_context = True\<rparr>)"
    unfolding scrape_one_def upt_1_4 script_timeout_close_fails_def
    by (simp add: prog_defs worker_defs script_defs)
  from worker_contains_all_but_handler_close[OF e] show ?thesis by simp
qed
section \<open>Proofs: results and the way the worker ends\<close>

lemma yields_conj: "yields R m \<Longrightarrow> yields R' m \<Longrightarrow> yields (\<lambda>x s. R x s \<and> R' x s) m"
  by (simp add: yields_def)

lemma yields_not_found_branch:
  "yields (\<lambda>r s. r = sentinel_result page_nexiste_pas \<and> suffix [Log l, Returned Close] (trace s))
     (bnd (emit (Log l)) (\<lambda>_. bnd (call Close (close P)) (\<lambda>_.
        ret (sentinel_result page_nexiste_pas))))"
  by (auto simp: yields_def prog_defs suffix_def split: prod.splits sum.splits)

lemma yields_extract_tail:
  "yields (\<lambda>r s. suffix [Log Success, Returned Close] (trace s)) (extract_and_close U B P)"
  by (auto simp: yields_def extract_and_close_def prog_defs Let_def suffix_def
           split: prod.splits sum.splits)

lemma yields_after_goto_tail:
  "yields (\<lambda>r s. (r = sentinel_result page_nexiste_pas \<and>
                    (suffix [Log HttpStatus, Returned Close] (trace s) \<or>
                     suffix [Log ErrorTitle, Returned Close] (trace s))) \<or>
                  (extracted r \<and> suffix [Log Success, Returned Close] (trace s)))
     (after_goto U B P resp)"
  unfolding after_goto_def
  by (intro yields_if yields_bnd
        yields_weaken[OF yields_not_found_branch]
        yields_weaken[OF yields_conj[OF yields_extract_and_close yields_extract_tail]])
     simp_all

lemma yields_with_sem_tail:
  assumes "yields R m" and "\<And>x s. R x s \<Longrightarrow> R' x (s\<lparr>trace := trace s @ [Release]\<rparr>)"
  shows "yields R' (with_sem m)"
proof (rule yieldsI)
  fix s x s' assume a: "with_sem m s = (Inr x, s')"
  obtain r1 s1 where m: "m (s\<lparr>trace := trace s @ [Acquire]\<rparr>) = (r1, s1)"
    by (cases "m (s\<lparr>trace := trace s @ [Acquire]\<rparr>)")
  then have "r1 = Inr x" "s' = s1\<lparr>trace := trace s1 @ [Release]\<rparr>"
    using a by (simp_all add: with_sem_def bnd_def emit_def)
  then show "R' x s'" using yieldsD[OF assms(1)] m assms(2) by blast
qed

lemma yields_attempt_concluded: "yields concluded (with_sem (attempt_body U B P url a))"
proof (rule yields_with_sem_tail)
  show "yields (\<lambda>r s. (r = sentinel_result page_nexiste_pas \<and>
                    (suffix [Log HttpStatus, Returned Close] (trace s) \<or>
                     suffix [Log ErrorTitle, Returned Close] (trace s))) \<or>
                  (extracted r \<and> suffix [Log Success, Returned Close] (trace s)))
          (attempt_body U B P url a)"
    unfolding attempt_body_def by (intro yields_bnd yields_after_goto_tail)
next
  fix x :: result and s :: "'a state"
  assume "(x = sentinel_result page_nexiste_pas \<and>
                    (suffix [Log HttpStatus, Returned Close] (trace s) \<or>
                     suffix [Log ErrorTitle, Returned Close] (trace s))) \<or>
                  (extracted x \<and> suffix [Log Success, Returned Close] (trace s))"
  then show "concluded x (s\<lparr>trace := trace s @ [Release]\<rparr>)"
    by (auto simp: concluded_def suffix_def)
qed

lemma yields_exhausted:
  "yields concluded (bnd (emit (Log AllFailed)) (\<lambda>_. ret (sentinel_result error_sentinel)))"
  by (auto simp: yields_def prog_defs concluded_def suffix_def)

lemma yields_attempts_concluded:
  "as \<noteq> [] \<Longrightarrow> \<not> last as < MAX_RETRIES \<Longrightarrow> yields concluded (attempts U B P url as)"
proof (induction as)
  case Nil
  then show ?case by simp
next
  case (Cons a rest)
  have tl: "yields concluded
              (if a < MAX_RETRIES
               then bnd (emit SleepBackoff) (\<lambda>_. attempts U B P url rest)
               else bnd (emit (Log AllFailed)) (\<lambda>_. ret (sentinel_result error_sentinel)))"
  proof (cases "a < MAX_RETRIES")
    case False
    then show ?thesis by (simp add: yields_exhausted)
  next
    case True
    then have ne: "rest \<noteq> []" using Cons.prems(2) by auto
    then have "\<not> last rest < MAX_RETRIES" using Cons.prems(2) by simp
    from Cons.IH[OF ne this] show ?thesis using True by (simp add: yields_bnd)
  qed
  show ?case
    unfolding attempts.simps
    by (intro yields_bnd yields_catch yields_attempt_concluded tl)
qed

lemma extracted_not_error: "extracted r \<Longrightarrow> r \<noteq> sentinel_result error_sentinel"
  by (auto simp: extracted_def sentinel_result_def result_keys_def aucune_note_def
        error_sentinel_def ustr_def)

lemma not_found_not_error: "sentinel_result page_nexiste_pas \<noteq> sentinel_result error_sentinel"
  by (simp add: sentinel_result_def result_keys_def page_nexiste_pas_def error_sentinel_def ustr_def)

text \<open>
  Claim C4.  Every result that the worker returns has exactly the three fields
  \<open>availability\<close>, \<open>average_stars\<close> and \<open>total_reviews\<close>, none of them \<open>None\<close>, and the
  result goes with the way the worker ended, which is one of three:
  \<^item> it ended by logging that all attempts failed, and the result is the \<open>Error\<close> sentinel
    in all three fields;
  \<^item> it ended with an attempt that classified the page as not found (by status or by
    title) and closed the context, and the result is the \<open>Page n'existe pas\<close> sentinel in
    all three fields;
  \<^item> it ended with an attempt that logged success and closed the context, and the result is
    an extraction: a non-empty availability text (the \<open>N/A\<close> sentinel when no selector
    matched), a rating that is a float or the no-rating sentinel, and a review count that
    is an integer or the no-rating sentinel.

  So the two failures that end the worker give a uniform record: whenever the trace
  holds the log line of exhaustion, whatever came before it (a logged success whose
  \<^verbatim>\<open>close()\<close> raised included), the result is the \<open>Error\<close> record; whenever the trace ends
  with a not-found classification, the result is the \<open>Page n'existe pas\<close> record.
\<close>

theorem every_result_fully_populated:
  assumes "scrape_one U B P url (start w) = (Inr r, s')"
  shows "map fst r = result_keys \<and> PNone \<notin> set (map snd r) \<and>
         ((r = sentinel_result error_sentinel \<and> suffix [Log AllFailed] (trace s')) \<or>
          (r = sentinel_result page_nexiste_pas \<and>
           (suffix [Log HttpStatus, Returned Close, Release] (trace s') \<or>
            suffix [Log ErrorTitle, Returned Close, Release] (trace s'))) \<or>
          ((\<exists>a st rv. r = [(''availability'', PStr a), (''average_stars'', st), (''total_reviews'', rv)] \<and>
             a \<noteq> [] \<and> (st = PStr aucune_note \<or> (\<exists>f. st = PFloat f)) \<and>
             (rv = PStr aucune_note \<or> (\<exists>n. rv = PInt n))) \<and>
           suffix [Log Success, Returned Close, Release] (trace s'))) \<and>
         (Log AllFailed \<in> set (trace s') \<longrightarrow> r = sentinel_result error_sentinel) \<and>
         (suffix [Log HttpStatus, Returned Close, Release] (trace s') \<or>
          suffix [Log ErrorTitle, Returned Close, Release] (trace s')
            \<longrightarrow> r = sentinel_result page_nexiste_pas) \<and>
         (r = sentinel_result error_sentinel \<longrightarrow> Log AllFailed \<in> set (trace s'))"
proof -
  let ?s = "(start w)\<lparr>trace := trace (start w) @ [SleepJitter]\<rparr>"
  have run: "attempts U B P url [1..<MAX_RETRIES + 1] ?s = (Inr r, s')"
    using assms by (simp add: scrape_one_def bnd_def emit_def)
  have "yields concluded (attempts U B P url [1..<MAX_RETRIES + 1])"
    by (rule yields_attempts_concluded) (simp_all add: upt_1_4, simp add: MAX_RETRIES_def)
  from yieldsD[OF this run] have c: "concluded r s'" .
  have "Log AllFailed \<notin> set (trace ?s)" by (simp add: start_def)
  from attempts_contained[OF run this]
  have af: "Log AllFailed \<in> set (trace s') \<longrightarrow> r = sentinel_result error_sentinel" by simp
  from c consider
      (exhausted) "r = sentinel_result error_sentinel" "suffix [Log AllFailed] (trace s')"
    | (not_found) "r = sentinel_result page_nexiste_pas"
        "suffix [Log HttpStatus, Returned Close, Release] (trace s') \<or>
         suffix [Log ErrorTitle, Returned Close, Release] (trace s')"
    | (extraction) "extracted r" "suffix [Log Success, Returned Close, Release] (trace s')"
    unfolding concluded_def by blast
  then show ?thesis
  proof cases
    case exhausted
    have "Log AllFailed \<in> set (trace s')" using exhausted(2) by (auto simp: suffix_def)
    moreover have "\<not> suffix [Log HttpStatus, Returned Close, Release] (trace s')"
      "\<not> suffix [Log ErrorTitle, Returned Close, Release] (trace s')"
      using exhausted(2) by (auto simp: suffix_def)
    ultimately show ?thesis
      using exhausted by (simp add: sentinel_result_keys sentinel_result_values)
  next
    case not_found
    have "r \<noteq> sentinel_result error_sentinel" using not_found(1) not_found_not_error by simp
    then show ?thesis
      using not_found af by (simp add: sentinel_result_keys sentinel_result_values)
  next
    case extraction
    from extractedD[OF extraction(1)] obtain a st rv where
      r: "r = [(''availability'', PStr a), (''average_stars'', st), (''total_reviews'', rv)]"
      and a: "a \<noteq> []" and st: "st = PStr aucune_note \<or> (\<exists>f. st = PFloat f)"
      and rv: "rv = PStr aucune_note \<or> (\<exists>n. rv = PInt n)" by blast
    have k: "map fst r = result_keys" using r by (simp add: result_keys_def)
    have n: "PNone \<notin> set (map snd r)" using r st rv by auto
    have ne: "r \<noteq> sentinel_result error_sentinel" using extraction(1) by (rule extracted_not_error)
    have nf: "\<not> suffix [Log HttpStatus, Returned Close, Release] (trace s')"
      "\<not> suffix [Log ErrorTitle, Returned Close, Release] (trace s')"
      using extraction(2) by (auto simp: suffix_def)
    have sh: "\<exists>a st rv. r = [(''availability'', PStr a), (''average_stars'', st), (''total_reviews'', rv)] \<and>
             a \<noteq> [] \<and> (st = PStr aucune_note \<or> (\<exists>f. st = PFloat f)) \<and>
             (rv = PStr aucune_note \<or> (\<exists>n. rv = PInt n))"
      using r a st rv by blast
    show ?thesis using k n ne nf sh extraction(2) af by blast
  qed
qed

theorem every_result_fully_populated_witness:
  "scrape_one latin1 (table_bs4 example_pages) scripted (ustr ''u'') (start script_success)
     = (Inr [(''availability'', PStr (ustr ''En stock'')),
             (''average_stars'', PFloat (ustr ''4.5'')), (''total_reviews'', PInt 1234)],
        \<lparr>world = [],
         trace = [SleepJitter, Acquire, Returned NewContext, Returned NewPage,
                  Log (Navigating 1), Returned Goto, Returned Title, Raised AcceptWaitVisible,
                  Returned Content, Returned Title, Returned Content, Log Success,
                  Returned Close, Release],
         has_context = True\<rparr>) \<and>
   map fst [(''availability'', PStr (ustr ''En stock'')),
            (''average_stars'', PFloat (ustr ''4.5'')), (''total_reviews'', PInt 1234)] = result_keys \<and>
   PNone \<notin> set (map snd [(''availability'', PStr (ustr ''En stock'')),
            (''average_stars'', PFloat (ustr ''4.5'')), (''total_reviews'', PInt 1234)]) \<and>
   (\<exists>s'. scrape_one latin1 (table_bs4 example_pages) scripted (ustr ''u'')
            (start script_extracted_close_fails)
          = (Inr (sentinel_result error_sentinel), s') \<and>
          Log Success \<in> set (trace s') \<and> Log AllFailed \<in> set (trace s') \<and>
          map fst (sentinel_result error_sentinel) = result_keys)"
proof -
  have e: "scrape_one latin1 (table_bs4 example_pages) scripted (ustr ''u'') (start script_success)
     = (Inr [(''availability'', PStr (ustr ''En stock'')),
             (''average_stars'', PFloat (ustr ''4.5'')), (''total_reviews'', PInt 1234)],
        \<lparr>world = [],
         trace = [SleepJitter, Acquire, Returned NewContext, Returned NewPage,
                  Log (Navigating 1), Returned Goto, Returned Title, Raised AcceptWaitVisible,
                  Returned Content, Returned Title, Returned Content, Log Success,
                  Returned Close, Release],
         has_context = True\<rparr>)"
    unfolding scrape_one_def upt_1_4 script_success_def
    by (simp add: prog_defs worker_defs script_defs upt_0_2 amazon_not_error_title
          product_not_blocked product_availability product_reviews)
  have f: "scrape_one latin1 (table_bs4 example_pages) scripted (ustr ''u'')
             (start script_extracted_close_fails)
     = (Inr (sentinel_result error_sentinel),
        \<lparr>world = [],
         trace = [SleepJitter, Acquire, Returned NewContext, Returned NewPage,
                  Log (Navigating 1), Returned Goto, Returned Title, Raised AcceptWaitVisible,
                  Returned Content, Returned Title, Returned Content, Log Success,
                  Raised Close, Release, Log (AttemptFailed 1), Returned Close, SleepBackoff,
                  Acquire, Raised NewContext, Release, Log (AttemptFailed 2), SleepBackoff,
                  Acquire, Raised NewContext, Release, Log (AttemptFailed 3), Log AllFailed],
         has_context = False\<rparr>)"
    unfolding scrape_one_def upt_1_4 script_extracted_close_fails_def
    by (simp add: prog_defs worker_defs script_defs upt_0_2 amazon_not_error_title
          product_not_blocked product_availability product_reviews)
  from every_result_fully_populated[OF e] have a:
    "map fst [(''availability'', PStr (ustr ''En stock'')),
            (''average_stars'', PFloat (ustr ''4.5'')), (''total_reviews'', PInt 1234)] = result_keys \<and>
     PNone \<notin> set (map snd [(''availability'', PStr (ustr ''En stock'')),
            (''average_stars'', PFloat (ustr ''4.5'')), (''total_reviews'', PInt 1234)])"
    by simp
  from every_result_fully_populated[OF f] have b:
    "map fst (sentinel_result error_sentinel) = result_keys" by simp
  show ?thesis using e a b unfolding f by simp
qed
section \<open>Proofs: sessions and permits\<close>

lemma pd_inner:
  "list_all inner_event evs \<Longrightarrow> permit_discipline True (evs @ rest) = permit_discipline True rest"
proof (induction evs)
  case Nil
  then show ?case by simp
next
  case (Cons ev evs)
  then show ?case by (cases ev) auto
qed

lemma attempts_permits:
  assumes "attempts U B P url as s = (r, s')"
  shows "\<exists>evs. trace s' = trace s @ evs \<and> permit_discipline False evs"
  using assms
proof (induction as arbitrary: s)
  case Nil
  then show ?case by (auto simp: ret_def)
next
  case (Cons a rest)
  from attempts_Cons_ways[OF Cons.prems(1)] obtain evs where inner: "list_all inner_event evs"
    and ways:
      "(\<exists>x. r = Inr x \<and> trace s' = trace s @ Acquire # evs @ [Release]) \<or>
       (\<exists>cevs. (cevs = [] \<or> cevs = [Returned Close]) \<and>
          ((\<exists>e w w'. r = Inl e \<and> close P w = (Inl e, w') \<and>
               trace s' = trace s @ Acquire # evs @ [Release, Log (AttemptFailed a)] @ [Raised Close]) \<or>
           (\<not> a < MAX_RETRIES \<and> r = Inr (sentinel_result error_sentinel) \<and>
               trace s' = trace s @ Acquire # evs @ [Release, Log (AttemptFailed a)] @ cevs @ [Log AllFailed]) \<or>
           (\<exists>s4. a < MAX_RETRIES \<and> attempts U B P url rest s4 = (r, s') \<and>
               trace s4 = trace s @ Acquire # evs @ [Release, Log (AttemptFailed a)] @ cevs @ [SleepBackoff])))"
    by blast
  note pd = pd_inner[OF inner]
  from ways consider
      (returned) x where "r = Inr x" "trace s' = trace s @ Acquire # evs @ [Release]"
    | (escaped) e w w' where "r = Inl e" "close P w = (Inl e, w')"
        "trace s' = trace s @ Acquire # evs @ [Release, Log (AttemptFailed a)] @ [Raised Close]"
    | (exhausted) cevs where "cevs = [] \<or> cevs = [Returned Close]"
        "r = Inr (sentinel_result error_sentinel)"
        "trace s' = trace s @ Acquire # evs @ [Release, Log (AttemptFailed a)] @ cevs @ [Log AllFailed]"
    | (again) cevs s4 where "cevs = [] \<or> cevs = [Returned Close]"
        "attempts U B P url rest s4 = (r, s')"
        "trace s4 = trace s @ Acquire # evs @ [Release, Log (AttemptFailed a)] @ cevs @ [SleepBackoff]"
    by blast
  then show ?case
  proof cases
    case returned
    moreover have "permit_discipline False (Acquire # evs @ [Release])" using pd by simp
    ultimately show ?thesis by blast
  next
    case escaped
    moreover have "permit_discipline False (Acquire # evs @ [Release, Log (AttemptFailed a)] @ [Raised Close])"
      using pd by simp
    ultimately show ?thesis by blast
  next
    case exhausted
    moreover have "permit_discipline False (Acquire # evs @ [Release, Log (AttemptFailed a)] @ cevs @ [Log AllFailed])"
      using pd exhausted(1) by auto
    ultimately show ?thesis by blast
  next
    case again
    from Cons.IH[OF again(2)] obtain evs4 where t: "trace s' = trace s4 @ evs4"
      and p4: "permit_discipline False evs4" by blast
    have "trace s' = trace s @ (Acquire # evs @ [Release, Log (AttemptFailed a)] @ cevs @ [SleepBackoff] @ evs4)"
      using t again(3) by simp
    moreover have "permit_discipline False
        (Acquire # evs @ [Release, Log (AttemptFailed a)] @ cevs @ [SleepBackoff] @ evs4)"
      using pd again(1) p4 by auto
    ultimately show ?thesis by blast
  qed
qed

text \<open>
  What does hold of the worker and the semaphore, whatever the browser does: the worker
  takes a permit before every call of \<^verbatim>\<open>new_context\<close>, gives it back on every way out of
  the attempt, and holds none when it ends.
\<close>

theorem worker_keeps_permit_discipline:
  "permit_discipline False (trace (snd (scrape_one U B P url (start w))))"
proof -
  let ?s = "(start w)\<lparr>trace := trace (start w) @ [SleepJitter]\<rparr>"
  obtain r s' where a: "attempts U B P url [1..<MAX_RETRIES + 1] ?s = (r, s')"
    by (cases "attempts U B P url [1..<MAX_RETRIES + 1] ?s")
  have "scrape_one U B P url (start w) = (r, s')"
    using a by (simp add: scrape_one_def bnd_def emit_def)
  moreover from attempts_permits[OF a] obtain evs where "trace s' = trace ?s @ evs"
    "permit_discipline False evs" by blast
  ultimately show ?thesis by (simp add: start_def)
qed

theorem worker_keeps_permit_discipline_witness:
  "permit_discipline False
     [SleepJitter, Acquire, Returned NewContext, Returned NewPage,
      Log (Navigating 1), Raised Goto, Release, Log (AttemptFailed 1), Returned Close,
      SleepBackoff, Acquire, Returned NewContext, Returned NewPage,
      Log (Navigating 2), Returned Goto, Returned Title, Raised AcceptWaitVisible,
      Returned Content, Returned Title, Returned Content, Log Success,
      Returned Close, Release]"
  using worker_keeps_permit_discipline[of latin1 "table_bs4 example_pages" scripted "ustr ''u''"
          script_timeout_then_success]
  unfolding timeout_then_success_trace .

text \<open>
  Claim C8 at an input where the code breaks it.  Six workers of one chunk under the
  semaphore of five permits.  Workers 0 to 4 each take a permit and open a context; worker
  5 sleeps its jitter and must wait.  The navigation of worker 0 times out: the exception
  leaves the \<^verbatim>\<open>async with sem\<close> block, which gives the permit back, and only then does the
  handler close the context (line 258).  Before that \<^verbatim>\<open>close()\<close> has returned, worker 5
  takes the permit and opens its context: five workers hold a permit, none is left, and
  six contexts are open.
\<close>

theorem sixth_session_opens_while_first_is_closing:
  "map_option (\<lambda>st. (permits st, permit_holders st, open_sessions st, map (take 1) (pending st)))
     (sys_run [0, 0, 0, 1, 1, 1, 2, 2, 2, 3, 3, 3, 4, 4, 4, 5, 0, 0, 0, 0, 0, 5, 5]
        (chunk_system latin1 (table_bs4 example_pages) scripted
           [ustr ''a'', ustr ''b'', ustr ''c'', ustr ''d'', ustr ''e'', ustr ''f'']
           [script_timeout_then_success, script_success, script_success, script_success,
            script_success, script_success]))
   = Some (0, 5, 6, [[Returned Close], [Returned NewPage], [Returned NewPage], [Returned NewPage],
                  [Returned NewPage], [Returned NewPage]])"
  by (simp add: chunk_system_def sys_init_def MAX_CONCURRENCY_def success_trace
        timeout_then_success_trace sys_step_def open_sessions_def permit_holders_def)
section \<open>Proofs: pacing\<close>

text \<open>
  Claim C9, as amended.  The worker sleeps the jitter delay once per target, as the
  first thing it does: the events after it hold no other jitter sleep, and every attempt
  (every taking of the semaphore) comes directly after a sleep, the jitter sleep for the
  first attempt and the backoff sleep of the handler for each later one.
\<close>

theorem jitter_once_per_target:
  "\<exists>evs. trace (snd (scrape_one U B P url (start w))) = SleepJitter # evs \<and>
         SleepJitter \<notin> set evs \<and> attempt_after_sleep SleepJitter evs"
proof -
  let ?s = "(start w)\<lparr>trace := trace (start w) @ [SleepJitter]\<rparr>"
  obtain r s' where a: "attempts U B P url [1..<MAX_RETRIES + 1] ?s = (r, s')"
    by (cases "attempts U B P url [1..<MAX_RETRIES + 1] ?s")
  have "scrape_one U B P url (start w) = (r, s')"
    using a by (simp add: scrape_one_def bnd_def emit_def)
  moreover from attempts_trace[OF a] obtain evs where "trace s' = trace ?s @ evs"
    "SleepJitter \<notin> set evs" "attempt_after_sleep SleepJitter evs" by blast
  ultimately show ?thesis by (simp add: start_def)
qed

theorem jitter_once_per_target_witness:
  "\<exists>evs. trace (snd (scrape_one latin1 (table_bs4 []) scripted (ustr ''u'')
             (start [Returns, Returns, Fails PlaywrightTimeoutError, Returns,
                     Returns, Returns, Response (Some 404), Returns])))
          = SleepJitter # evs \<and>
         SleepJitter \<notin> set evs \<and> attempt_after_sleep SleepJitter evs"
  using jitter_once_per_target[of latin1 "table_bs4 []" scripted "ustr ''u''"
           "[Returns, Returns, Fails PlaywrightTimeoutError, Returns,
             Returns, Returns, Response (Some 404), Returns]"]
  by simp

text \<open>
  Claim C9 as stated fails: when the first navigation times out, the second attempt makes
  its request after the backoff sleep only, with no jitter sleep of its own.
\<close>

theorem jitter_not_before_each_request:
  "trace (snd (scrape_one latin1 (table_bs4 []) scripted (ustr ''u'')
             (start [Returns, Returns, Fails PlaywrightTimeoutError, Returns,
                     Returns, Returns, Response (Some 404), Returns])))
   = [SleepJitter, Acquire, Returned NewContext, Returned NewPage, Log (Navigating 1),
      Raised Goto, Release, Log (AttemptFailed 1), Returned Close, SleepBackoff,
      Acquire, Returned NewContext, Returned NewPage, Log (Navigating 2),
      Returned Goto, Log HttpStatus, Returned Close, Release] \<and>
   \<not> jitter_before_each_request False
       (trace (snd (scrape_one latin1 (table_bs4 []) scripted (ustr ''u'')
             (start [Returns, Returns, Fails PlaywrightTimeoutError, Returns,
                     Returns, Returns, Response (Some 404), Returns]))))"
proof -
  have "trace (snd (scrape_one latin1 (table_bs4 []) scripted (ustr ''u'')
             (start [Returns, Returns, Fails PlaywrightTimeoutError, Returns,
                     Returns, Returns, Response (Some 404), Returns])))
   = [SleepJitter, Acquire, Returned NewContext, Returned NewPage, Log (Navigating 1),
      Raised Goto, Release, Log (AttemptFailed 1), Returned Close, SleepBackoff,
      Acquire, Returned NewContext, Returned NewPage, Log (Navigating 2),
      Returned Goto, Log HttpStatus, Returned Close, Release]"
    unfolding scrape_one_def upt_1_4
    by (simp add: prog_defs worker_defs script_defs)
  then show ?thesis by simp
qed

end
